theory Spec2Isabelle
  imports Main "HOL-Library.Multiset" "HOL-Library.Sublist"
begin

section \<open>Data model\<close>

text \<open>
  The program is one Go file, \<^verbatim>\<open>main.go\<close>. It reads a checkpoint time, lists the
  repositories of an account, clones each one, looks for files whose path contains a
  pattern and whose history has a commit authored after the checkpoint, writes one report
  line per such file, and finally stores the start time of the run as the new checkpoint.

  An instant of \<^verbatim>\<open>time.Time\<close> is kept as the number of nanoseconds since the Unix epoch
  together with the offset (seconds east of UTC) of the zone the value carries. Go's
  integers for the instant are bounded; the model uses unbounded integers, and the one place
  where Go saturates (\<^verbatim>\<open>Time.Sub\<close>) is written out.
\<close>

record time =
  unixNano :: int
  zone :: int

text \<open>
  Errors are values. \<open>ErrNotExist\<close> is the error \<^verbatim>\<open>os.IsNotExist\<close> recognises,
  \<open>ParseError\<close> is \<^verbatim>\<open>*time.ParseError\<close> with its message, and \<open>Failure\<close> stands for any
  other error of a collaborator (file system, network, git).
\<close>

datatype error = ErrNotExist | ParseError string | Failure string

type_synonym hash = nat

text \<open>
  A commit object: the author time, and what \<^verbatim>\<open>commit.Tree()\<close> followed by
  \<^verbatim>\<open>tree.Files()\<close> yields, the paths of the files of its tree in traversal order.
\<close>

record commit =
  Author_When :: time
  Tree :: "error + string list"

text \<open>
  A cloned repository, as far as \<^verbatim>\<open>checkRepository\<close> queries it: \<^verbatim>\<open>Head()\<close>,
  \<^verbatim>\<open>CommitObject(hash)\<close> and \<^verbatim>\<open>Log\<close> with the options \<^verbatim>\<open>From\<close> and \<^verbatim>\<open>FileName\<close>.
  The iterator that \<^verbatim>\<open>Log\<close> returns is the list of the commits it yields, in its order;
  the callback given to its \<^verbatim>\<open>ForEach\<close> at line 130 never returns an error, and the result
  of that \<^verbatim>\<open>ForEach\<close> is not looked at either.
\<close>

record repository =
  Head :: "error + hash"
  CommitObject :: "hash \<Rightarrow> error + commit"
  Log :: "hash \<Rightarrow> string \<Rightarrow> error + commit list"

section \<open>Change detection\<close>

text \<open>
  \<^verbatim>\<open>t.Sub(u)\<close>: the duration \<open>t - u\<close> in nanoseconds as an \<^verbatim>\<open>int64\<close>, saturated at
  the smallest and the largest duration. None of the times compared by the program carries a
  monotonic clock reading (they come from \<^verbatim>\<open>time.Parse\<close>, \<^verbatim>\<open>AddDate\<close> and git).
\<close>

definition Sub :: "time \<Rightarrow> time \<Rightarrow> int" where
  "Sub t u =
     (let d = unixNano t - unixNano u in
      if d < - (2 ^ 63) then - (2 ^ 63)
      else if 2 ^ 63 - 1 < d then 2 ^ 63 - 1
      else d)"

text \<open>\<^verbatim>\<open>strings.Contains(s, substr)\<close>: byte-wise, case-sensitive.\<close>

fun has_prefix :: "string \<Rightarrow> string \<Rightarrow> bool" where
  "has_prefix s [] = True"
| "has_prefix [] (p # ps) = False"
| "has_prefix (c # s) (p # ps) = (c = p \<and> has_prefix s ps)"

fun strings_Contains :: "string \<Rightarrow> string \<Rightarrow> bool" where
  "strings_Contains [] substr = has_prefix [] substr"
| "strings_Contains (c # s) substr = (has_prefix (c # s) substr \<or> strings_Contains s substr)"

text \<open>
  The callback of \<^verbatim>\<open>iter.ForEach\<close> over the commits of one file (lines 130 to 143). It
  always returns \<^verbatim>\<open>nil\<close>, so the iteration is a fold over the commits of the log.
\<close>

definition visit_commit :: "time \<Rightarrow> string \<Rightarrow> commit \<Rightarrow> (string \<rightharpoonup> time) \<Rightarrow> (string \<rightharpoonup> time)" where
  "visit_commit lastTime name c result =
     (if 0 < Sub (Author_When c) lastTime then
        (case result name of
           None \<Rightarrow> result(name \<mapsto> Author_When c)
         | Some t \<Rightarrow>
             if 0 < Sub (Author_When c) t then result(name \<mapsto> Author_When c) else result)
      else result)"

text \<open>
  The callback of \<^verbatim>\<open>tree.Files().ForEach\<close> (lines 116 to 147): the error it returns and
  the map after it.
\<close>

definition visit_file ::
  "repository \<Rightarrow> hash \<Rightarrow> string \<Rightarrow> time \<Rightarrow> (string \<rightharpoonup> time) \<Rightarrow> string
     \<Rightarrow> error option \<times> (string \<rightharpoonup> time)" where
  "visit_file repo ref pattern lastTime result name =
     (if strings_Contains name pattern then
        (case Log repo ref name of
           Inl err \<Rightarrow> (Some err, result)
         | Inr cs \<Rightarrow> (None, fold (visit_commit lastTime name) cs result))
      else (None, result))"

text \<open>
  \<^verbatim>\<open>FileIter.ForEach\<close>: calls the callback on each file in turn and stops at the first
  error, which it returns.
\<close>

fun files_ForEach ::
  "('r \<Rightarrow> string \<Rightarrow> error option \<times> 'r) \<Rightarrow> string list \<Rightarrow> 'r \<Rightarrow> error option \<times> 'r" where
  "files_ForEach cb [] r = (None, r)"
| "files_ForEach cb (f # fs) r =
     (case cb r f of
        (Some err, r') \<Rightarrow> (Some err, r')
      | (None, r') \<Rightarrow> files_ForEach cb fs r')"

text \<open>
  Lines 115 to 147 of \<^verbatim>\<open>checkRepository\<close>: the traversal starts from the empty map.
  The first component is what \<^verbatim>\<open>ForEach\<close> returns, the second the map \<^verbatim>\<open>result\<close>.
\<close>

definition detect ::
  "repository \<Rightarrow> hash \<Rightarrow> string \<Rightarrow> time \<Rightarrow> string list \<Rightarrow> error option \<times> (string \<rightharpoonup> time)" where
  "detect repo ref pattern lastTime files =
     files_ForEach (visit_file repo ref pattern lastTime) files Map.empty"

text \<open>The commits \<^verbatim>\<open>Log\<close> returns for a path (none when the query fails).\<close>

definition commits_of :: "repository \<Rightarrow> hash \<Rightarrow> string \<Rightarrow> commit list" where
  "commits_of repo ref name = (case Log repo ref name of Inl err \<Rightarrow> [] | Inr cs \<Rightarrow> cs)"

text \<open>The author times of the commits of a path that lie strictly after the checkpoint.\<close>

definition qualifying :: "repository \<Rightarrow> hash \<Rightarrow> time \<Rightarrow> string \<Rightarrow> time set" where
  "qualifying repo ref lastTime name =
     {w \<in> Author_When ` set (commits_of repo ref name). unixNano lastTime < unixNano w}"

section \<open>Time: calendar, formatting and parsing\<close>

text \<open>
  The part of Go's package \<^verbatim>\<open>time\<close> the program uses: \<^verbatim>\<open>Format\<close> and \<^verbatim>\<open>Parse\<close> with
  the layout \<^verbatim>\<open>object.DateFormat\<close> of go-git, which is
  \<^verbatim>\<open>"Mon Jan 02 15:04:05 2006 -0700"\<close>, \<^verbatim>\<open>Format("2006-01-02")\<close> and
  \<^verbatim>\<open>AddDate\<close>. The calendar is the proleptic Gregorian one. Go counts days from an
  absolute epoch far in the past to stay within unsigned integers; the model counts them
  from 0001-01-01, a whole number of 400-year cycles later, with the flooring division of
  the integers, which gives the same dates.
\<close>

definition isLeap :: "int \<Rightarrow> bool" where
  "isLeap year = (year mod 4 = 0 \<and> (year mod 100 \<noteq> 0 \<or> year mod 400 = 0))"

definition daysBefore :: "int list" where
  "daysBefore = [0, 31, 59, 90, 120, 151, 181, 212, 243, 273, 304, 334, 365]"

definition daysIn :: "int \<Rightarrow> int \<Rightarrow> int" where
  "daysIn m year =
     (if m = 2 \<and> isLeap year then 29
      else daysBefore ! nat m - daysBefore ! nat (m - 1))"

text \<open>\<^verbatim>\<open>daysSinceEpoch(year)\<close>: the days from 0001-01-01 to the first of January of \<open>year\<close>.\<close>

definition daysSinceEpoch :: "int \<Rightarrow> int" where
  "daysSinceEpoch year =
     (let y = year - 1;
          n400 = y div 400; y = y - 400 * n400;
          d = 146097 * n400;
          n100 = y div 100; y = y - 100 * n100;
          d = d + 36524 * n100;
          n4 = y div 4; y = y - 4 * n4;
          d = d + 1461 * n4
      in d + 365 * y)"

text \<open>
  \<^verbatim>\<open>absDate\<close>, first half: the year of a day count, and the day within that year (from 0).
  \<open>n - n div 4\<close> is Go's \<^verbatim>\<open>n -= n >> 2\<close>.
\<close>

definition absYear :: "int \<Rightarrow> int \<times> int" where
  "absYear days =
     (let d = days;
          n = d div 146097; y = 400 * n; d = d - 146097 * n;
          n = d div 36524; n = n - n div 4; y = y + 100 * n; d = d - 36524 * n;
          n = d div 1461; y = y + 4 * n; d = d - 1461 * n;
          n = d div 365; n = n - n div 4; y = y + n; d = d - 365 * n
      in (y + 1, d))"

text \<open>
  \<^verbatim>\<open>absDate\<close>, second half: month and day of the month. \<open>month_of\<close> is the estimate
  "every month has 31 days" with its adjustment, on a day of the year with the leap day
  taken out.
\<close>

definition month_of :: "int \<Rightarrow> int \<times> int" where
  "month_of day =
     (let month = day div 31;
          end = daysBefore ! nat (month + 1)
      in if day \<ge> end then (month + 2, day - end + 1)
         else (month + 1, day - daysBefore ! nat month + 1))"

definition monthDay :: "int \<Rightarrow> int \<Rightarrow> int \<times> int" where
  "monthDay year yday =
     (if isLeap year \<and> yday = 31 + 29 - 1 then (2, 29)
      else if isLeap year \<and> yday > 31 + 29 - 1 then month_of (yday - 1)
      else month_of yday)"

text \<open>
  The seconds since 0001-01-01 00:00:00 on the clock of the zone of the time; 719162 days
  lie between that date and 1970-01-01.
\<close>

definition abs_sec :: "time \<Rightarrow> int" where
  "abs_sec t = unixNano t div 1000000000 + zone t + 719162 * 86400"

definition nsec_of :: "time \<Rightarrow> int" where
  "nsec_of t = unixNano t mod 1000000000"

text \<open>\<^verbatim>\<open>t.Date()\<close>, \<^verbatim>\<open>t.Clock()\<close> and \<^verbatim>\<open>t.Weekday()\<close> (Sunday is 0).\<close>

definition date_of :: "time \<Rightarrow> int \<times> int \<times> int" where
  "date_of t =
     (let (year, yday) = absYear (abs_sec t div 86400);
          (month, day) = monthDay year yday
      in (year, month, day))"

definition clock_of :: "time \<Rightarrow> int \<times> int \<times> int" where
  "clock_of t =
     (let s = abs_sec t mod 86400
      in (s div 3600, s mod 3600 div 60, s mod 60))"

definition weekday_of :: "time \<Rightarrow> int" where
  "weekday_of t = (abs_sec t div 86400 + 1) mod 7"

text \<open>
  \<^verbatim>\<open>time.Date(year, month, day, hour, min, sec, nsec, loc)\<close> for a zone of a fixed offset.
  The month is normalised into the year; the other fields overflow into the instant by
  plain arithmetic, which is what Go's step-by-step normalisation computes.
\<close>

definition Date :: "int \<Rightarrow> int \<Rightarrow> int \<Rightarrow> int \<Rightarrow> int \<Rightarrow> int \<Rightarrow> int \<Rightarrow> int \<Rightarrow> time" where
  "Date year month day hour minute sec nsec offset =
     (let m = month - 1;
          year = year + m div 12;
          m = m mod 12;
          d = daysSinceEpoch year + daysBefore ! nat m
                + (if isLeap year \<and> 3 \<le> m + 1 then 1 else 0) + (day - 1);
          abs = d * 86400 + hour * 3600 + minute * 60 + sec;
          unix = abs - 719162 * 86400 - offset
      in \<lparr>unixNano = unix * 1000000000 + nsec, zone = offset\<rparr>)"

text \<open>
  A \<^verbatim>\<open>*Location\<close> as far as the package consults it: \<^verbatim>\<open>l.lookup(sec)\<close> gives the offset
  of the zone in force at the instant \<open>sec\<close> (in seconds since 1970), and the first instant
  and the end of the span of that zone. Go finds them in the table of the transitions of
  the Location. \<^verbatim>\<open>FixedZone\<close> is the Location of one zone, in force from \<^verbatim>\<open>alpha\<close> to
  \<^verbatim>\<open>omega\<close>.
\<close>

record Location =
  Location_lookup :: "int \<Rightarrow> int \<times> int \<times> int"

definition FixedZone :: "int \<Rightarrow> Location" where
  "FixedZone offset = \<lparr>Location_lookup = (\<lambda>sec. (offset, - (2 ^ 63), 2 ^ 63 - 1))\<rparr>"

text \<open>
  \<^verbatim>\<open>time.Date(year, month, day, hour, min, sec, nsec, loc)\<close> for any Location. The reading
  of the wall clock is first taken as one of UTC; the offset in force at that instant is
  then taken off, or, when the instant so found lies outside the span of that zone, the
  offset in force at the instant so found. The result is a time of \<open>loc\<close>: its offset is
  the one \<open>loc\<close> has at its instant.
\<close>

definition Date_in ::
  "int \<Rightarrow> int \<Rightarrow> int \<Rightarrow> int \<Rightarrow> int \<Rightarrow> int \<Rightarrow> int \<Rightarrow> Location \<Rightarrow> time" where
  "Date_in year month day hour minute sec nsec loc =
     (let m = month - 1;
          year = year + m div 12;
          m = m mod 12;
          sec = sec + nsec div 1000000000;
          nsec = nsec mod 1000000000;
          d = daysSinceEpoch year + daysBefore ! nat m
                + (if isLeap year \<and> 3 \<le> m + 1 then 1 else 0) + (day - 1);
          abs = d * 86400 + hour * 3600 + minute * 60 + sec;
          unix = abs - 719162 * 86400;
          (offset, start, end) = Location_lookup loc unix;
          unix =
            (if offset \<noteq> 0 then
               (let utc = unix - offset;
                    offset = (if utc < start \<or> end \<le> utc then fst (Location_lookup loc utc)
                              else offset)
                in unix - offset)
             else unix)
      in \<lparr>unixNano = unix * 1000000000 + nsec, zone = fst (Location_lookup loc unix)\<rparr>)"

text \<open>
  \<^verbatim>\<open>t.AddDate(years, months, days)\<close>: the date and the clock of \<open>t\<close>, the date moved, given
  to \<^verbatim>\<open>Date\<close> with \<^verbatim>\<open>t.Location()\<close>, which is \<open>loc\<close> here: a time of the model carries
  the offset in force at its instant, and the caller says which Location it is of.
\<close>

definition AddDate :: "time \<Rightarrow> Location \<Rightarrow> int \<Rightarrow> int \<Rightarrow> int \<Rightarrow> time" where
  "AddDate t loc years months days =
     (let (year, month, day) = date_of t;
          (hour, minute, sec) = clock_of t
      in Date_in (year + years) (month + months) (day + days) hour minute sec (nsec_of t) loc)"

subsection \<open>Formatting\<close>

definition shortDayNames :: "string list" where
  "shortDayNames = [''Sun'', ''Mon'', ''Tue'', ''Wed'', ''Thu'', ''Fri'', ''Sat'']"

definition shortMonthNames :: "string list" where
  "shortMonthNames =
     [''Jan'', ''Feb'', ''Mar'', ''Apr'', ''May'', ''Jun'',
      ''Jul'', ''Aug'', ''Sep'', ''Oct'', ''Nov'', ''Dec'']"

definition digit_char :: "nat \<Rightarrow> char" where
  "digit_char n = ''0123456789'' ! (n mod 10)"

fun digits :: "nat \<Rightarrow> string" where
  "digits n = (if n < 10 then [digit_char n] else digits (n div 10) @ [digit_char (n mod 10)])"

text \<open>
  \<^verbatim>\<open>appendInt(b, x, width)\<close>: a sign for a negative number, then the decimal digits
  padded with zeros to the width.
\<close>

definition appendInt :: "int \<Rightarrow> nat \<Rightarrow> string" where
  "appendInt x width =
     (let ds = digits (nat \<bar>x\<bar>)
      in (if x < 0 then [CHR ''-''] else []) @ replicate (width - length ds) (CHR ''0'') @ ds)"

text \<open>
  The element \<^verbatim>\<open>-0700\<close>: Go divides the offset by 60 towards zero, prints the sign of the
  quotient and then its hours and minutes.
\<close>

definition zone_text :: "int \<Rightarrow> string" where
  "zone_text offset =
     (let z = \<bar>offset\<bar> div 60
      in [if offset < 0 \<and> 0 < z then CHR ''-'' else CHR ''+'']
           @ appendInt (z div 60) 2 @ appendInt (z mod 60) 2)"

text \<open>\<^verbatim>\<open>t.Format(object.DateFormat)\<close>.\<close>

definition Format_DateFormat :: "time \<Rightarrow> string" where
  "Format_DateFormat t =
     (let (year, month, day) = date_of t;
          (hour, minute, sec) = clock_of t
      in shortDayNames ! nat (weekday_of t) @ '' '' @ shortMonthNames ! nat (month - 1) @ '' ''
           @ appendInt day 2 @ '' '' @ appendInt hour 2 @ '':'' @ appendInt minute 2 @ '':''
           @ appendInt sec 2 @ '' '' @ appendInt year 4 @ '' '' @ zone_text (zone t))"

text \<open>\<^verbatim>\<open>t.Format("2006-01-02")\<close>.\<close>

definition Format_ymd :: "time \<Rightarrow> string" where
  "Format_ymd t =
     (let (year, month, day) = date_of t
      in appendInt year 4 @ ''-'' @ appendInt month 2 @ ''-'' @ appendInt day 2)"

subsection \<open>Parsing\<close>

definition is_digit :: "char \<Rightarrow> bool" where
  "is_digit c = (48 \<le> (of_char c :: nat) \<and> (of_char c :: nat) \<le> 57)"

definition digit_val :: "char \<Rightarrow> nat" where
  "digit_val c = of_char c - 48"

definition cutspace :: "string \<Rightarrow> string" where
  "cutspace s = dropWhile (\<lambda>c. c = CHR '' '') s"

text \<open>
  \<^verbatim>\<open>skip(value, prefix)\<close>: a space of the layout stands for any run of spaces of the
  value (or for the end of the value); every other character stands for itself.
\<close>

function skip :: "string \<Rightarrow> string \<Rightarrow> string option" where
  "skip v [] = Some v"
| "skip v (p # ps) =
     (if p = CHR '' '' then
        (if v \<noteq> [] \<and> hd v \<noteq> CHR '' '' then None
         else skip (cutspace v) (cutspace (p # ps)))
      else
        (case v of
           [] \<Rightarrow> None
         | c # cs \<Rightarrow> if c = p then skip cs ps else None))"
  by pat_completeness auto
termination
  by (relation "measure (\<lambda>(v, p). length p)")
    (auto simp: cutspace_def less_Suc_eq_le length_dropWhile_le)

text \<open>
  \<^verbatim>\<open>match(s1, s2)\<close> compares two strings of the same length ignoring the case of
  letters: \<open>lower\<close> sets the bit \<^verbatim>\<open>'a' - 'A'\<close> of a byte.
\<close>

definition lower :: "char \<Rightarrow> nat" where
  "lower c = (let n = of_char c in if n div 32 mod 2 = 0 then n + 32 else n)"

fun match :: "string \<Rightarrow> string \<Rightarrow> bool" where
  "match (c1 # s1) (c2 # s2) =
     ((c1 = c2 \<or> (lower c1 = lower c2 \<and> 97 \<le> lower c1 \<and> lower c1 \<le> 122)) \<and> match s1 s2)"
| "match s1 s2 = True"

text \<open>\<^verbatim>\<open>lookup(tab, val)\<close>: the index of the first name of the table the value starts with.\<close>

fun lookup_from :: "nat \<Rightarrow> string list \<Rightarrow> string \<Rightarrow> (nat \<times> string) option" where
  "lookup_from i [] val = None"
| "lookup_from i (v # tab) val =
     (if length v \<le> length val \<and> match (take (length v) val) v
      then Some (i, drop (length v) val)
      else lookup_from (Suc i) tab val)"

definition lookup :: "string list \<Rightarrow> string \<Rightarrow> (nat \<times> string) option" where
  "lookup tab val = lookup_from 0 tab val"

text \<open>\<^verbatim>\<open>getnum(s, fixed)\<close>: one or two digits, exactly two when \<open>fixed\<close>.\<close>

fun getnum :: "string \<Rightarrow> bool \<Rightarrow> (int \<times> string) option" where
  "getnum [] fixed = None"
| "getnum [a] fixed = (if is_digit a \<and> \<not> fixed then Some (int (digit_val a), []) else None)"
| "getnum (a # b # s) fixed =
     (if \<not> is_digit a then None
      else if \<not> is_digit b then (if fixed then None else Some (int (digit_val a), b # s))
      else Some (int (digit_val a) * 10 + int (digit_val b), s))"

text \<open>
  \<^verbatim>\<open>leadingInt(s)\<close>: the value of the leading digits and the rest. Go reports an overflow
  beyond 63 bits; the strings it is applied to here have at most nine digits.
\<close>

fun leadingInt :: "nat \<Rightarrow> string \<Rightarrow> nat \<times> string" where
  "leadingInt x [] = (x, [])"
| "leadingInt x (c # s) = (if is_digit c then leadingInt (x * 10 + digit_val c) s else (x, c # s))"

definition atoi :: "string \<Rightarrow> int option" where
  "atoi s =
     (let neg = (s \<noteq> [] \<and> hd s = CHR ''-'');
          s = (if s \<noteq> [] \<and> (hd s = CHR ''-'' \<or> hd s = CHR ''+'') then tl s else s);
          (q, rem) = leadingInt 0 s
      in if rem \<noteq> [] then None else Some (if neg then - int q else int q))"

text \<open>
  A fractional second in the value where the layout has none: a period or comma followed
  by digits is read off as nanoseconds, of which at most nine digits count.
\<close>

definition fraction :: "string \<Rightarrow> int \<times> string" where
  "fraction v =
     (case v of
        c # d # rest \<Rightarrow>
          if (c = CHR ''.'' \<or> c = CHR '','') \<and> is_digit d then
            (let ds = take 9 (takeWhile is_digit (d # rest))
             in (int (fst (leadingInt 0 ds)) * 10 ^ (9 - length ds), dropWhile is_digit (d # rest)))
          else (0, v)
      | _ \<Rightarrow> (0, v))"

definition parse_year :: "string \<Rightarrow> (int \<times> string) option" where
  "parse_year v =
     (if length v < 4 \<or> \<not> is_digit (hd v) then None
      else case atoi (take 4 v) of None \<Rightarrow> None | Some y \<Rightarrow> Some (y, drop 4 v))"

definition errBad :: error where
  "errBad = ParseError []"

definition out_of_range :: "string \<Rightarrow> error" where
  "out_of_range what = ParseError ('': '' @ what @ '' out of range'')"

definition parse_zone :: "string \<Rightarrow> error + int \<times> string" where
  "parse_zone v =
     (if length v < 5 then Inl errBad
      else
        case getnum (take 2 (drop 1 v)) True of
          None \<Rightarrow> Inl errBad
        | Some (hr, u) \<Rightarrow>
            (case getnum (take 2 (drop 3 v)) True of
               None \<Rightarrow> Inl errBad
             | Some (mm, u') \<Rightarrow>
                 if 60 < mm then Inl (out_of_range ''time zone offset minute'')
                 else if 24 < hr then Inl (out_of_range ''time zone offset hour'')
                 else if hd v = CHR ''+'' then Inr ((hr * 60 + mm) * 60, drop 5 v)
                 else if hd v = CHR ''-'' then Inr (- ((hr * 60 + mm) * 60), drop 5 v)
                 else Inl errBad))"

text \<open>
  The elements of the layout in turn: the fields read, and what is left of the value. The
  weekday is read and dropped. An error ends the parse at the element that raises it. The
  parse is written in three parts: date, clock, year and zone.
\<close>

record fields =
  f_year :: int
  f_month :: int
  f_day :: int
  f_hour :: int
  f_min :: int
  f_sec :: int
  f_nsec :: int
  f_zone :: int

text \<open>
  One element of the layout: \<open>element\<close> passes what was read to the rest of the parse, or
  ends it with the error of a value that does not fit; \<open>in_range\<close> ends it when a number
  read is out of its range.
\<close>

definition element :: "'a option \<Rightarrow> ('a \<Rightarrow> error + 'b) \<Rightarrow> error + 'b" where
  "element r k = (case r of None \<Rightarrow> Inl errBad | Some a \<Rightarrow> k a)"

definition in_range :: "bool \<Rightarrow> string \<Rightarrow> error + 'b \<Rightarrow> error + 'b" where
  "in_range ok what k = (if ok then k else Inl (out_of_range what))"

definition parse_date :: "string \<Rightarrow> error + (int \<times> int) \<times> string" where
  "parse_date value =
     element (lookup shortDayNames value) (\<lambda>(wd, v).
     element (skip v '' '') (\<lambda>v.
     element (lookup shortMonthNames v) (\<lambda>(mon, v).
     element (skip v '' '') (\<lambda>v.
     element (getnum v True) (\<lambda>(day, v).
       Inr ((int mon + 1, day), v))))))"

definition parse_clock :: "string \<Rightarrow> error + (int \<times> int \<times> int \<times> int) \<times> string" where
  "parse_clock value =
     element (skip value '' '') (\<lambda>v.
     element (getnum v False) (\<lambda>(hour, v).
     in_range (hour < 24) ''hour'' (
     element (skip v '':'') (\<lambda>v.
     element (getnum v True) (\<lambda>(minute, v).
     in_range (minute < 60) ''minute'' (
     element (skip v '':'') (\<lambda>v.
     element (getnum v True) (\<lambda>(sec, v).
     in_range (sec < 60) ''second'' (
       case fraction v of (nsec, v) \<Rightarrow> Inr ((hour, minute, sec, nsec), v))))))))))"

definition parse_year_zone :: "string \<Rightarrow> error + (int \<times> int) \<times> string" where
  "parse_year_zone value =
     element (skip value '' '') (\<lambda>v.
     element (parse_year v) (\<lambda>(year, v).
     element (skip v '' '') (\<lambda>v.
       case parse_zone v of
         Inl e \<Rightarrow> Inl e
       | Inr (offset, v) \<Rightarrow> Inr ((year, offset), v))))"

definition parse_elements :: "string \<Rightarrow> error + fields \<times> string" where
  "parse_elements value =
     (case parse_date value of
        Inl e \<Rightarrow> Inl e
      | Inr ((month, day), v) \<Rightarrow>
          (case parse_clock v of
             Inl e \<Rightarrow> Inl e
           | Inr ((hour, minute, sec, nsec), v) \<Rightarrow>
               (case parse_year_zone v of
                  Inl e \<Rightarrow> Inl e
                | Inr ((year, offset), v) \<Rightarrow>
                    Inr (\<lparr>f_year = year, f_month = month, f_day = day, f_hour = hour,
                          f_min = minute, f_sec = sec, f_nsec = nsec, f_zone = offset\<rparr>, v))))"

text \<open>
  \<^verbatim>\<open>time.Parse(object.DateFormat, value)\<close>: after the last element nothing may be left of
  the value, the day must exist in its month, and the instant is that of the fields read on
  a clock with the offset read. The message of the extra-text error is kept without the
  quoted text.
\<close>

definition Parse_DateFormat :: "string \<Rightarrow> error + time" where
  "Parse_DateFormat value =
     (case parse_elements value of
        Inl e \<Rightarrow> Inl e
      | Inr (f, rest) \<Rightarrow>
          if rest \<noteq> [] then Inl (ParseError '': extra text'')
          else if f_day f < 1 \<or> daysIn (f_month f) (f_year f) < f_day f
          then Inl (ParseError '': day out of range'')
          else Inr (Date (f_year f) (f_month f) (f_day f) (f_hour f) (f_min f) (f_sec f)
                      (f_nsec f) (f_zone f)))"

text \<open>
  The times the layout can print and read back: a year of four digits, and a zone offset of
  whole minutes and at most 24 hours and 59 minutes.
\<close>

definition fits_layout :: "time \<Rightarrow> bool" where
  "fits_layout t =
     (0 \<le> fst (date_of t) \<and> fst (date_of t) \<le> 9999 \<and> zone t mod 60 = 0 \<and> \<bar>zone t\<bar> < 90000)"

text \<open>The time cut to whole seconds: what is left of it after printing.\<close>

definition whole_seconds :: "time \<Rightarrow> time" where
  "whole_seconds t = \<lparr>unixNano = unixNano t div 1000000000 * 1000000000, zone = zone t\<rparr>"

section \<open>Files and collaborators\<close>

text \<open>
  The file system as far as the program touches it: what a path holds, and how many bytes
  the device still takes. \<open>Denied\<close> is an entry that \<^verbatim>\<open>os.Stat\<close> sees but that cannot be
  opened; \<open>Faulty\<close> is a path on which already \<^verbatim>\<open>os.Stat\<close> fails with an error other
  than "does not exist". The working copies \<^verbatim>\<open>git.PlainClone\<close> creates are kept apart
  from the paths of the checkpoint and the report, in \<open>clones\<close>; \<open>cleanPaths\<close> is the
  global variable of that name.
\<close>

datatype node = Absent | Dir | File string | Denied error | Faulty error

record world =
  nodes :: "string \<Rightarrow> node"
  room :: nat
  cleanPaths :: "string list"
  clones :: "string list"

definition os_Stat :: "world \<Rightarrow> string \<Rightarrow> error option" where
  "os_Stat w name =
     (case nodes w name of
        Absent \<Rightarrow> Some ErrNotExist
      | Faulty err \<Rightarrow> Some err
      | _ \<Rightarrow> None)"

definition ReadFile :: "world \<Rightarrow> string \<Rightarrow> error + string" where
  "ReadFile w name =
     (case nodes w name of
        Absent \<Rightarrow> Inl ErrNotExist
      | Dir \<Rightarrow> Inl (Failure ''is a directory'')
      | File b \<Rightarrow> Inr b
      | Denied err \<Rightarrow> Inl err
      | Faulty err \<Rightarrow> Inl err)"

text \<open>\<^verbatim>\<open>os.OpenFile(name, os.O_CREATE|os.O_WRONLY|os.O_TRUNC, 0600)\<close>.\<close>

definition OpenFile :: "string \<Rightarrow> world \<Rightarrow> error option \<times> world" where
  "OpenFile name w =
     (case nodes w name of
        Absent \<Rightarrow> (None, w\<lparr>nodes := (nodes w)(name := File [])\<rparr>)
      | Dir \<Rightarrow> (Some (Failure ''is a directory''), w)
      | File b \<Rightarrow> (None, w\<lparr>nodes := (nodes w)(name := File [])\<rparr>)
      | Denied err \<Rightarrow> (Some err, w)
      | Faulty err \<Rightarrow> (Some err, w))"

text \<open>
  \<^verbatim>\<open>f.WriteString(s)\<close> on the file opened under \<open>name\<close>: the bytes the device takes are
  appended, and the write fails when it does not take all of them.
\<close>

definition WriteString :: "string \<Rightarrow> string \<Rightarrow> world \<Rightarrow> error option \<times> world" where
  "WriteString name s w =
     (case nodes w name of
        File b \<Rightarrow>
          if length s \<le> room w
          then (None, w\<lparr>nodes := (nodes w)(name := File (b @ s)), room := room w - length s\<rparr>)
          else (Some (Failure ''no space left on device''),
                w\<lparr>nodes := (nodes w)(name := File (b @ take (room w) s)), room := 0\<rparr>)
      | _ \<Rightarrow> (Some (Failure ''file already closed''), w))"

definition Mkdir :: "string \<Rightarrow> world \<Rightarrow> error option \<times> world" where
  "Mkdir name w =
     (case nodes w name of
        Absent \<Rightarrow> (None, w\<lparr>nodes := (nodes w)(name := Dir)\<rparr>)
      | _ \<Rightarrow> (Some (Failure ''file exists''), w))"

text \<open>The configuration (\<^verbatim>\<open>Config\<close>), and what the Bitbucket client returns for a repository.\<close>

record Config =
  Username :: string
  Passwd :: string
  Owner :: string
  Clone :: string
  Pattern :: string

record link =
  link_href :: string
  link_name :: string

record item =
  Links_clone :: "link list"

text \<open>
  What the run takes from outside: the clock (\<open>start\<close> is the global variable initialised
  with \<^verbatim>\<open>time.Now()\<close> when the program starts, \<open>now\<close> the later reading inside
  \<^verbatim>\<open>readCheckTime\<close>, in nanoseconds since 1970), the Location \<^verbatim>\<open>time.Local\<close> of the
  machine, \<^verbatim>\<open>yaml.Unmarshal\<close>, the listing of the account,
  \<^verbatim>\<open>git.PlainClone\<close> (destination, URL, user, password), \<^verbatim>\<open>filepath.Join\<close>, and the
  order in which \<^verbatim>\<open>range\<close> visits the keys of the two maps, which Go leaves open: the keys
  of a map are visited in the order of the list given for it, repetitions removed.
\<close>

record env =
  start :: time
  now :: int
  Local :: Location
  Unmarshal :: "string \<Rightarrow> error + Config"
  ListForAccount :: "Config \<Rightarrow> error + item list"
  PlainClone :: "string \<Rightarrow> string \<Rightarrow> string \<Rightarrow> string \<Rightarrow> error + repository"
  Join :: "string \<Rightarrow> string \<Rightarrow> string"
  repos_order :: "string list"
  files_order :: "string \<Rightarrow> string list"

definition checkFileName :: string where
  "checkFileName = ''check.txt''"

definition configFileName :: string where
  "configFileName = ''config.yml''"

definition resultDir :: string where
  "resultDir = ''result''"

text \<open>\<^verbatim>\<open>for key, val := range m\<close>: the entries in the order the keys are visited.\<close>

definition range_map :: "'k list \<Rightarrow> ('k \<rightharpoonup> 'v) \<Rightarrow> ('k \<times> 'v) list" where
  "range_map order m = map (\<lambda>k. (k, the (m k))) (filter (\<lambda>k. m k \<noteq> None) (remdups order))"

section \<open>The functions of main.go\<close>

definition parseYamlFile :: "env \<Rightarrow> string \<Rightarrow> world \<Rightarrow> error + Config" where
  "parseYamlFile e filename w =
     (case ReadFile w filename of
        Inl err \<Rightarrow> Inl err
      | Inr data \<Rightarrow> Unmarshal e data)"

subsection \<open>retrieveRepositories\<close>

text \<open>
  \<^verbatim>\<open>fmt.Sprintf("%v", link)\<close> of a link, a map with the keys \<^verbatim>\<open>href\<close> and \<^verbatim>\<open>name\<close>:
  Go prints the keys in sorted order, as the comment of the source shows.
\<close>

definition Sprintf_v :: "link \<Rightarrow> string" where
  "Sprintf_v l = ''map[href:'' @ link_href l @ '' name:'' @ link_name l @ '']''"

text \<open>
  \<^verbatim>\<open>strings.Index\<close> and \<^verbatim>\<open>strings.LastIndex\<close> for a separator of one byte (\<open>-1\<close> when it
  does not occur), \<^verbatim>\<open>s[i:]\<close>, and \<^verbatim>\<open>strings.Split(s, sep)[0]\<close>.
\<close>

definition strings_Index :: "string \<Rightarrow> char \<Rightarrow> int" where
  "strings_Index s c = (if c \<in> set s then int (length (takeWhile (\<lambda>x. x \<noteq> c) s)) else - 1)"

definition strings_LastIndex :: "string \<Rightarrow> char \<Rightarrow> int" where
  "strings_LastIndex s c =
     (if c \<in> set s then int (length s) - 1 - int (length (takeWhile (\<lambda>x. x \<noteq> c) (rev s))) else - 1)"

definition slice_from :: "string \<Rightarrow> int \<Rightarrow> string" where
  "slice_from s i = drop (nat i) s"

definition Split_first :: "string \<Rightarrow> char \<Rightarrow> string" where
  "Split_first s c = takeWhile (\<lambda>x. x \<noteq> c) s"

text \<open>The body of the inner loop for one link: the key and the URL, when the link is taken.\<close>

definition link_entry :: "link \<Rightarrow> (string \<times> string) option" where
  "link_entry l =
     (let format = Sprintf_v l in
      if strings_Contains format ''https'' then
        (let head = Split_first format (CHR '' '');
             val = slice_from head (strings_Index head (CHR '':'') + 1);
             repos = slice_from val (strings_LastIndex val (CHR ''/'') + 1);
             key = Split_first repos (CHR ''.'')
         in Some (key, val))
      else None)"

text \<open>The inner loop: the first link that is taken ends it (\<^verbatim>\<open>break\<close>).\<close>

fun first_https :: "link list \<Rightarrow> (string \<times> string) option" where
  "first_https [] = None"
| "first_https (l # ls) = (case link_entry l of Some kv \<Rightarrow> Some kv | None \<Rightarrow> first_https ls)"

definition add_item :: "item \<Rightarrow> (string \<rightharpoonup> string) \<Rightarrow> (string \<rightharpoonup> string)" where
  "add_item it repositories =
     (case first_https (Links_clone it) of
        None \<Rightarrow> repositories
      | Some (key, val) \<Rightarrow> repositories(key \<mapsto> val))"

definition retrieveRepositories :: "env \<Rightarrow> Config \<Rightarrow> error + (string \<rightharpoonup> string)" where
  "retrieveRepositories e c =
     (case ListForAccount e c of
        Inl err \<Rightarrow> Inl err
      | Inr items \<Rightarrow> Inr (fold add_item items Map.empty))"

subsection \<open>checkRepository\<close>

definition newline :: char where
  "newline = CHR 0x0A"

text \<open>The line \<^verbatim>\<open>fmt.Sprintf\<close> builds for one entry of the result.\<close>

definition report_line :: "string \<Rightarrow> string \<Rightarrow> time \<Rightarrow> string" where
  "report_line repos key val =
     key @ '' in repository('' @ repos @ '') has changed in latest time(''
       @ Format_DateFormat val @ '')'' @ [newline]"

text \<open>Lines 149 to 154: one write per entry; the first failing write ends the function.\<close>

fun write_entries :: "string \<Rightarrow> string \<Rightarrow> (string \<times> time) list \<Rightarrow> world \<Rightarrow> error option \<times> world" where
  "write_entries fd repos [] w = (None, w)"
| "write_entries fd repos ((key, val) # es) w =
     (case WriteString fd (report_line repos key val) w of
        (Some err, w') \<Rightarrow> (Some err, w')
      | (None, w') \<Rightarrow> write_entries fd repos es w')"

text \<open>The text of the lines of a list of entries, in the order of the list.\<close>

definition entries_text :: "string \<Rightarrow> (string \<times> time) list \<Rightarrow> string" where
  "entries_text repos es = concat (map (\<lambda>(key, val). report_line repos key val) es)"

text \<open>
  Lines 149 to 159: the entries, then a blank line when the map is not empty.
  \<^verbatim>\<open>len(result)\<close> is the number of entries \<^verbatim>\<open>range\<close> visits; the result of the last
  write is dropped, as in the source.
\<close>

definition write_result ::
  "string list \<Rightarrow> string \<Rightarrow> string \<Rightarrow> (string \<rightharpoonup> time) \<Rightarrow> world \<Rightarrow> error option \<times> world" where
  "write_result order fd repos result w =
     (case write_entries fd repos (range_map order result) w of
        (Some err, w') \<Rightarrow> (Some err, w')
      | (None, w') \<Rightarrow>
          if 0 < length (range_map order result) then (None, snd (WriteString fd [newline] w'))
          else (None, w'))"

text \<open>
  Lines 97 to 159, on the repository cloned. What \<^verbatim>\<open>ForEach\<close> returns for the files of the
  tree is dropped, as in the source, where the call stands as a statement.
\<close>

definition scan_repository ::
  "string list \<Rightarrow> Config \<Rightarrow> string \<Rightarrow> time \<Rightarrow> string \<Rightarrow> repository \<Rightarrow> world
     \<Rightarrow> error option \<times> world" where
  "scan_repository order c repos lastTime fd repository w =
     (case Head repository of
        Inl err \<Rightarrow> (Some err, w)
      | Inr ref \<Rightarrow>
          (case CommitObject repository ref of
             Inl err \<Rightarrow> (Some err, w)
           | Inr commit \<Rightarrow>
               (case Tree commit of
                  Inl err \<Rightarrow> (Some err, w)
                | Inr files \<Rightarrow>
                    write_result order fd repos
                      (snd (detect repository ref (Pattern c) lastTime files)) w)))"

definition checkRepository ::
  "env \<Rightarrow> Config \<Rightarrow> string \<Rightarrow> string \<Rightarrow> time \<Rightarrow> string \<Rightarrow> world \<Rightarrow> error option \<times> world" where
  "checkRepository e c repos url lastTime fd w =
     (let dest = Join e (Clone c) repos in
      case PlainClone e dest url (Username c) (Passwd c) of
        Inl err \<Rightarrow> (Some err, w)
      | Inr repository \<Rightarrow>
          scan_repository (files_order e repos) c repos lastTime fd repository
            (w\<lparr>cleanPaths := cleanPaths w @ [dest], clones := clones w @ [dest]\<rparr>))"

subsection \<open>The checkpoint\<close>

text \<open>\<^verbatim>\<open>strings.TrimRight(s, cutset)\<close>.\<close>

definition TrimRight :: "string \<Rightarrow> string \<Rightarrow> string" where
  "TrimRight s cutset = rev (dropWhile (\<lambda>c. c \<in> set cutset) (rev s))"

text \<open>\<^verbatim>\<open>time.Now()\<close>: the reading of the clock, as a time of \<^verbatim>\<open>Local\<close>.\<close>

definition time_Now :: "env \<Rightarrow> time" where
  "time_Now e =
     \<lparr>unixNano = now e, zone = fst (Location_lookup (Local e) (now e div 1000000000))\<rparr>"

definition readCheckTime :: "env \<Rightarrow> string \<Rightarrow> world \<Rightarrow> error + time" where
  "readCheckTime e filename w =
     (case os_Stat w filename of
        Some err \<Rightarrow>
          if err = ErrNotExist then Inr (AddDate (time_Now e) (Local e) 0 (- 6) 0) else Inl err
      | None \<Rightarrow>
          (case ReadFile w filename of
             Inl err \<Rightarrow> Inl err
           | Inr b \<Rightarrow> Parse_DateFormat (TrimRight b [newline])))"

text \<open>The result of the write is dropped, as in the source.\<close>

definition writeCheckTime :: "env \<Rightarrow> string \<Rightarrow> world \<Rightarrow> error option \<times> world" where
  "writeCheckTime e filename w =
     (case OpenFile filename w of
        (Some err, w') \<Rightarrow> (Some err, w')
      | (None, w') \<Rightarrow> (None, snd (WriteString filename (Format_DateFormat (start e)) w')))"

definition prepareDir :: "string \<Rightarrow> world \<Rightarrow> error option \<times> world" where
  "prepareDir dir w =
     (case os_Stat w dir of
        Some err \<Rightarrow> if err = ErrNotExist then Mkdir dir w else (Some err, w)
      | None \<Rightarrow> (None, w))"

subsection \<open>main\<close>

text \<open>
  A run ends by returning or by a panic. The loop over the repositories (lines 254 to 263)
  stops at the first scan that returns an error; what the program prints to the standard
  output is left out.
\<close>

datatype outcome = Returned | Panic error

fun check_all ::
  "env \<Rightarrow> Config \<Rightarrow> time \<Rightarrow> string \<Rightarrow> (string \<times> string) list \<Rightarrow> world \<Rightarrow> error option \<times> world" where
  "check_all e c lastTime fd [] w = (None, w)"
| "check_all e c lastTime fd ((repos, url) # rs) w =
     (case checkRepository e c repos url lastTime fd w of
        (Some err, w') \<Rightarrow> (Some err, w')
      | (None, w') \<Rightarrow> check_all e c lastTime fd rs w')"

text \<open>The deferred function: \<^verbatim>\<open>os.RemoveAll\<close> on every path recorded.\<close>

definition cleanup :: "world \<Rightarrow> world" where
  "cleanup w = w\<lparr>clones := filter (\<lambda>p. p \<notin> set (cleanPaths w)) (clones w)\<rparr>"

text \<open>Lines 253 to 268, after which the deferred functions run on either way out.\<close>

definition check_and_save ::
  "env \<Rightarrow> Config \<Rightarrow> time \<Rightarrow> string \<Rightarrow> (string \<rightharpoonup> string) \<Rightarrow> world \<Rightarrow> outcome \<times> world" where
  "check_and_save e c lastTime fd repositories w =
     (case check_all e c lastTime fd (range_map (repos_order e) repositories) w of
        (Some err, w') \<Rightarrow> (Panic err, cleanup w')
      | (None, w') \<Rightarrow>
          (case writeCheckTime e checkFileName w' of
             (Some err, w'') \<Rightarrow> (Panic err, cleanup w'')
           | (None, w'') \<Rightarrow> (Returned, cleanup w'')))"

definition report_name :: "env \<Rightarrow> string" where
  "report_name e = resultDir @ ''/'' @ Format_ymd (start e) @ ''.txt''"

text \<open>Lines 226 to 268, with the checkpoint read.\<close>

definition configure_and_check :: "env \<Rightarrow> time \<Rightarrow> world \<Rightarrow> outcome \<times> world" where
  "configure_and_check e lastTime w =
     (case parseYamlFile e configFileName w of
        Inl err \<Rightarrow> (Panic err, w)
      | Inr conf \<Rightarrow>
          (case retrieveRepositories e conf of
             Inl err \<Rightarrow> (Panic err, w)
           | Inr repositories \<Rightarrow>
               (case OpenFile (report_name e) w of
                  (Some err, w') \<Rightarrow> (Panic err, w')
                | (None, w') \<Rightarrow> check_and_save e conf lastTime (report_name e) repositories w')))"

definition main :: "env \<Rightarrow> world \<Rightarrow> outcome \<times> world" where
  "main e w =
     (case prepareDir resultDir w of
        (Some err, w') \<Rightarrow> (Panic err, w')
      | (None, w') \<Rightarrow>
          (case readCheckTime e checkFileName w' of
             Inl err \<Rightarrow> (Panic err, w')
           | Inr lastTime \<Rightarrow> configure_and_check e lastTime w'))"

section \<open>Example inputs\<close>

text \<open>
  The scenario of the specification: one file \<^verbatim>\<open>pkg/conf/app.yml\<close> matching the pattern
  \<^verbatim>\<open>conf\<close>, with commits ten and two days before a time \<open>T\<close>, next to a file that does
  not match. Times are in nanoseconds; \<open>T\<close> is 2019-12-10 05:07:28 UTC.
\<close>

definition day_ns :: int where
  "day_ns = 86400 * 1000000000"

definition scenario_T :: int where
  "scenario_T = 1575954448 * 1000000000"

definition at_ns :: "int \<Rightarrow> time" where
  "at_ns n = \<lparr>unixNano = n, zone = 28800\<rparr>"

definition scenario_commits :: "commit list" where
  "scenario_commits =
     [\<lparr>Author_When = at_ns (scenario_T - 2 * day_ns), Tree = Inr []\<rparr>,
      \<lparr>Author_When = at_ns (scenario_T - 10 * day_ns), Tree = Inr []\<rparr>]"

definition scenario_files :: "string list" where
  "scenario_files = [''README.md'', ''pkg/conf/app.yml'']"

definition scenario_repo :: repository where
  "scenario_repo =
     \<lparr>Head = Inr 7,
      CommitObject = (\<lambda>h. Inr \<lparr>Author_When = at_ns (scenario_T - 2 * day_ns), Tree = Inr scenario_files\<rparr>),
      Log = (\<lambda>h name. if name = ''pkg/conf/app.yml'' then Inr scenario_commits else Inr [])\<rparr>"

text \<open>
  A configuration, a repository whose log queries all fail, a clock and collaborators for
  a run over two repositories, and a file system with the report of the day opened.
\<close>

definition example_config :: Config where
  "example_config =
     \<lparr>Username = ''user'', Passwd = ''secret'', Owner = ''wesure'', Clone = ''clone'',
      Pattern = ''conf''\<rparr>"

definition broken_repo :: repository where
  "broken_repo =
     \<lparr>Head = Inr 7,
      CommitObject = (\<lambda>h. Inr \<lparr>Author_When = at_ns scenario_T, Tree = Inr scenario_files\<rparr>),
      Log = (\<lambda>h name. Inl (Failure ''object not found''))\<rparr>"

definition example_items :: "item list" where
  "example_items =
     [\<lparr>Links_clone =
         [\<lparr>link_href = ''https://wesure@bitbucket.org/wesure/alert-enricher.git'', link_name = ''https''\<rparr>,
          \<lparr>link_href = ''git@bitbucket.org:wesure/alert-enricher.git'', link_name = ''ssh''\<rparr>]\<rparr>,
      \<lparr>Links_clone =
         [\<lparr>link_href = ''git@bitbucket.org:wesure/broken.git'', link_name = ''ssh''\<rparr>,
          \<lparr>link_href = ''https://wesure@bitbucket.org/wesure/broken.git'', link_name = ''https''\<rparr>]\<rparr>]"

definition example_env :: env where
  "example_env =
     \<lparr>start = at_ns scenario_T,
      now = scenario_T + 1,
      Local = FixedZone 28800,
      Unmarshal = (\<lambda>data. Inr example_config),
      ListForAccount = (\<lambda>c. Inr example_items),
      PlainClone = (\<lambda>dest url user passwd.
         if url = ''https://wesure@bitbucket.org/wesure/alert-enricher.git'' then Inr scenario_repo
         else if url = ''https://wesure@bitbucket.org/wesure/broken.git'' then Inr broken_repo
         else Inl (Failure ''repository not found'')),
      Join = (\<lambda>dir elem. dir @ ''/'' @ elem),
      repos_order = [''alert-enricher'', ''broken''],
      files_order = (\<lambda>repos. scenario_files)\<rparr>"

definition example_world :: world where
  "example_world =
     \<lparr>nodes = (\<lambda>p. Absent)(''result/2019-12-10.txt'' := File []),
      room = 4096, cleanPaths = [], clones = []\<rparr>"

text \<open>A result with two entries, for the order of the lines of a report.\<close>

definition two_entries :: "string \<rightharpoonup> time" where
  "two_entries =
     [''conf/a.yml'' \<mapsto> at_ns scenario_T, ''conf/b.yml'' \<mapsto> at_ns (scenario_T - 2 * day_ns)]"

text \<open>Two repositories of the listing whose URLs give the same key.\<close>

definition colliding_items :: "item list" where
  "colliding_items =
     [\<lparr>Links_clone = [\<lparr>link_href = ''https://wesure@bitbucket.org/wesure/app.git'', link_name = ''https''\<rparr>]\<rparr>,
      \<lparr>Links_clone = [\<lparr>link_href = ''https://wesure@bitbucket.org/wesure/app.v2.git'', link_name = ''https''\<rparr>]\<rparr>]"

text \<open>
  A working directory before a run: the configuration file, a checkpoint of five days before
  \<open>T\<close>, no result directory yet. In \<open>failing_env\<close> no repository can be cloned; in
  \<open>corrupt_world\<close> the checkpoint file does not hold a time.
\<close>

definition saved_world :: world where
  "saved_world =
     \<lparr>nodes = (\<lambda>p. Absent)
        (''config.yml'' := File ''user: user'',
         ''check.txt'' := File (''Thu Dec 05 13:07:28 2019 +0800'' @ [newline])),
      room = 4096, cleanPaths = [], clones = []\<rparr>"

definition failing_env :: env where
  "failing_env =
     example_env\<lparr>PlainClone := (\<lambda>dest url user passwd. Inl (Failure ''repository not found''))\<rparr>"

text \<open>
  A machine in New York on the first of November 2026 at 15:22:28 of its clock, some hours
  after the end of the daylight-saving time. Of the table of New York the two changes of
  zone of that year are kept, at 07:00 UTC of the eighth of March and at 06:00 UTC of the
  first of November.
\<close>

definition new_york :: Location where
  "new_york =
     \<lparr>Location_lookup = (\<lambda>sec.
        if sec < 1772953200 then (- 18000, - (2 ^ 63), 1772953200)
        else if sec < 1793512800 then (- 14400, 1772953200, 1793512800)
        else (- 18000, 1793512800, 2 ^ 63 - 1))\<rparr>"

definition new_york_env :: env where
  "new_york_env = example_env\<lparr>now := 1793564548901140754, Local := new_york\<rparr>"

definition corrupt_world :: world where
  "corrupt_world =
     saved_world\<lparr>nodes := (nodes saved_world)(''check.txt'' := File ''last week'')\<rparr>"

text \<open>Checkpoint files with trailing newlines, and with a carriage return before the newline.\<close>

definition unix_world :: world where
  "unix_world =
     saved_world\<lparr>nodes := (nodes saved_world)
        (''check.txt'' := File (''Tue Dec 10 13:07:28 2019 +0800'' @ replicate 2 newline))\<rparr>"

definition dos_world :: world where
  "dos_world =
     saved_world\<lparr>nodes := (nodes saved_world)
        (''check.txt'' := File (''Tue Dec 10 13:07:28 2019 +0800'' @ [CHR 0x0D] @ replicate 1 newline))\<rparr>"

section \<open>Proofs: change detection\<close>

lemma Sub_pos_iff: "0 < Sub t u \<longleftrightarrow> unixNano u < unixNano t"
  by (simp add: Sub_def Let_def)

lemma has_prefix_iff: "has_prefix s p \<longleftrightarrow> (\<exists>v. s = p @ v)"
  by (induction s p rule: has_prefix.induct) auto

lemma strings_Contains_iff: "strings_Contains s p \<longleftrightarrow> (\<exists>u v. s = u @ p @ v)"
proof (induction s)
  case Nil
  then show ?case by (simp add: has_prefix_iff)
next
  case (Cons c s)
  show ?case
  proof
    assume "strings_Contains (c # s) p"
    then consider "has_prefix (c # s) p" | "strings_Contains s p" by auto
    then show "\<exists>u v. c # s = u @ p @ v"
    proof cases
      case 1
      then obtain v where "c # s = p @ v" by (auto simp: has_prefix_iff)
      then have "c # s = [] @ p @ v" by simp
      then show ?thesis by blast
    next
      case 2
      then obtain u v where "s = u @ p @ v" using Cons.IH by blast
      then have "c # s = (c # u) @ p @ v" by simp
      then show ?thesis by blast
    qed
  next
    assume "\<exists>u v. c # s = u @ p @ v"
    then obtain u v where uv: "c # s = u @ p @ v" by blast
    show "strings_Contains (c # s) p"
    proof (cases u)
      case Nil
      then have "has_prefix (c # s) p" using uv by (auto simp: has_prefix_iff)
      then show ?thesis by simp
    next
      case (Cons a u')
      then have "s = u' @ p @ v" using uv by simp
      then have "strings_Contains s p" using Cons.IH by blast
      then show ?thesis by simp
    qed
  qed
qed

lemma fold_visit_other:
  "q \<noteq> name \<Longrightarrow> fold (visit_commit t name) cs r q = r q"
  by (induction cs arbitrary: r) (auto simp: visit_commit_def split: option.splits)

lemma fold_visit_None:
  "fold (visit_commit t name) cs r name = None \<longleftrightarrow>
     r name = None \<and> (\<forall>c \<in> set cs. \<not> unixNano t < unixNano (Author_When c))"
  by (induction cs arbitrary: r) (auto simp: visit_commit_def Sub_pos_iff split: option.splits)

lemma fold_visit_Some:
  "fold (visit_commit t name) cs r name = Some w \<Longrightarrow>
     (r name = Some w \<or> (\<exists>c \<in> set cs. Author_When c = w \<and> unixNano t < unixNano w)) \<and>
     (\<forall>c \<in> set cs. unixNano t < unixNano (Author_When c) \<longrightarrow>
        unixNano (Author_When c) \<le> unixNano w) \<and>
     (\<forall>a. r name = Some a \<longrightarrow> unixNano a \<le> unixNano w)"
proof (induction cs arbitrary: r)
  case Nil
  then show ?case by simp
next
  case (Cons c cs)
  let ?r = "visit_commit t name c r"
  have run: "fold (visit_commit t name) cs ?r name = Some w" using Cons.prems by simp
  note ih = Cons.IH [OF run]
  have step: "?r name = Some w \<Longrightarrow>
      r name = Some w \<or> (Author_When c = w \<and> unixNano t < unixNano w)"
    by (auto simp: visit_commit_def Sub_pos_iff split: option.splits if_splits)
  have keep: "\<And>a. r name = Some a \<Longrightarrow> \<exists>b. ?r name = Some b \<and> unixNano a \<le> unixNano b"
    by (auto simp: visit_commit_def Sub_pos_iff split: option.splits)
  have new: "unixNano t < unixNano (Author_When c) \<Longrightarrow>
      \<exists>b. ?r name = Some b \<and> unixNano (Author_When c) \<le> unixNano b"
    by (auto simp: visit_commit_def Sub_pos_iff split: option.splits)
  have "r name = Some w \<or> (\<exists>c' \<in> set (c # cs). Author_When c' = w \<and> unixNano t < unixNano w)"
    using ih step by auto
  moreover have "\<forall>c' \<in> set (c # cs). unixNano t < unixNano (Author_When c') \<longrightarrow>
      unixNano (Author_When c') \<le> unixNano w"
    using ih new by fastforce
  moreover have "\<forall>a. r name = Some a \<longrightarrow> unixNano a \<le> unixNano w"
    using ih keep by fastforce
  ultimately show ?case by blast
qed

lemma visit_file_other:
  "q \<noteq> name \<Longrightarrow> snd (visit_file repo ref pat t r name) q = r q"
  by (auto simp: visit_file_def fold_visit_other split: sum.splits)

text \<open>
  The invariant of the traversal when no log query fails: what the map holds for a path
  \<open>p\<close> after the files \<open>fs\<close>, in terms of what it held before.
\<close>

lemma files_ForEach_inv:
  assumes "\<forall>f \<in> set fs. strings_Contains f pat \<longrightarrow> \<not> isl (Log repo ref f)"
  shows "fst (files_ForEach (visit_file repo ref pat t) fs r) = None \<and>
     (snd (files_ForEach (visit_file repo ref pat t) fs r) p = None \<longleftrightarrow>
        r p = None \<and> \<not> (p \<in> set fs \<and> strings_Contains p pat \<and> qualifying repo ref t p \<noteq> {})) \<and>
     (\<forall>w. snd (files_ForEach (visit_file repo ref pat t) fs r) p = Some w \<longrightarrow>
        (r p = Some w \<or> (p \<in> set fs \<and> strings_Contains p pat \<and> w \<in> qualifying repo ref t p)) \<and>
        (p \<in> set fs \<and> strings_Contains p pat \<longrightarrow>
           (\<forall>x \<in> qualifying repo ref t p. unixNano x \<le> unixNano w)) \<and>
        (\<forall>a. r p = Some a \<longrightarrow> unixNano a \<le> unixNano w))"
  using assms
proof (induction fs arbitrary: r)
  case Nil
  then show ?case by simp
next
  case (Cons f fs)
  let ?r = "snd (visit_file repo ref pat t r f)"
  have ok: "fst (visit_file repo ref pat t r f) = None"
    using Cons.prems by (auto simp: visit_file_def split: sum.splits)
  then have unroll: "files_ForEach (visit_file repo ref pat t) (f # fs) r =
      files_ForEach (visit_file repo ref pat t) fs ?r"
    by (cases "visit_file repo ref pat t r f") auto
  have rest: "\<forall>f \<in> set fs. strings_Contains f pat \<longrightarrow> \<not> isl (Log repo ref f)"
    using Cons.prems by simp
  note ih = Cons.IH [OF rest, of ?r]
  show ?case
  proof (cases "p = f \<and> strings_Contains f pat")
    case False
    have same: "?r p = r p"
    proof (cases "p = f")
      case True
      then show ?thesis using False by (simp add: visit_file_def)
    next
      case False
      then show ?thesis by (simp add: visit_file_other)
    qed
    show ?thesis unfolding unroll using ih same False by auto
  next
    case True
    then obtain cs where cs: "Log repo ref p = Inr cs"
      using Cons.prems by (cases "Log repo ref p") auto
    have rp: "?r p = fold (visit_commit t p) cs r p"
      using True cs by (simp add: visit_file_def)
    have q: "qualifying repo ref t p = {w \<in> Author_When ` set cs. unixNano t < unixNano w}"
      by (simp add: qualifying_def commits_of_def cs)
    have none: "?r p = None \<longleftrightarrow> r p = None \<and> qualifying repo ref t p = {}"
      unfolding rp q fold_visit_None by auto
    have some: "\<And>w. ?r p = Some w \<Longrightarrow>
        (r p = Some w \<or> w \<in> qualifying repo ref t p) \<and>
        (\<forall>x \<in> qualifying repo ref t p. unixNano x \<le> unixNano w) \<and>
        (\<forall>a. r p = Some a \<longrightarrow> unixNano a \<le> unixNano w)"
    proof -
      fix w assume "?r p = Some w"
      then have "fold (visit_commit t p) cs r p = Some w" by (simp add: rp)
      from fold_visit_Some [OF this] show "(r p = Some w \<or> w \<in> qualifying repo ref t p) \<and>
        (\<forall>x \<in> qualifying repo ref t p. unixNano x \<le> unixNano w) \<and>
        (\<forall>a. r p = Some a \<longrightarrow> unixNano a \<le> unixNano w)"
        unfolding q by auto
    qed
    have c1: "snd (files_ForEach (visit_file repo ref pat t) fs ?r) p = None \<longleftrightarrow>
        r p = None \<and> \<not> (p \<in> set (f # fs) \<and> strings_Contains p pat \<and> qualifying repo ref t p \<noteq> {})"
      using ih none True by auto
    have c2: "\<forall>w. snd (files_ForEach (visit_file repo ref pat t) fs ?r) p = Some w \<longrightarrow>
        (r p = Some w \<or> (p \<in> set (f # fs) \<and> strings_Contains p pat \<and> w \<in> qualifying repo ref t p)) \<and>
        (p \<in> set (f # fs) \<and> strings_Contains p pat \<longrightarrow>
           (\<forall>x \<in> qualifying repo ref t p. unixNano x \<le> unixNano w)) \<and>
        (\<forall>a. r p = Some a \<longrightarrow> unixNano a \<le> unixNano w)"
    proof (intro allI impI)
      fix w assume w: "snd (files_ForEach (visit_file repo ref pat t) fs ?r) p = Some w"
      from ih w have a: "?r p = Some w \<or> (p \<in> set fs \<and> strings_Contains p pat \<and> w \<in> qualifying repo ref t p)"
        and b: "\<forall>a. ?r p = Some a \<longrightarrow> unixNano a \<le> unixNano w"
        by blast+
      have ex: "\<exists>b. ?r p = Some b"
      proof (rule ccontr)
        assume "\<not> (\<exists>b. ?r p = Some b)"
        then have "?r p = None" by simp
        then have "qualifying repo ref t p = {}" using none by simp
        then show False using a \<open>?r p = None\<close> by auto
      qed
      then obtain b where bb: "?r p = Some b" by blast
      have bw: "unixNano b \<le> unixNano w" using b bb by simp
      from some [OF bb] have s1: "r p = Some b \<or> b \<in> qualifying repo ref t p"
        and s2: "\<forall>x \<in> qualifying repo ref t p. unixNano x \<le> unixNano b"
        and s3: "\<forall>a. r p = Some a \<longrightarrow> unixNano a \<le> unixNano b" by blast+
      have g1: "r p = Some w \<or> (p \<in> set (f # fs) \<and> strings_Contains p pat \<and> w \<in> qualifying repo ref t p)"
        using a some [of w] True by auto
      have g2: "\<forall>x \<in> qualifying repo ref t p. unixNano x \<le> unixNano w"
        using s2 bw by fastforce
      have g3: "\<forall>a. r p = Some a \<longrightarrow> unixNano a \<le> unixNano w"
        using s3 bw by fastforce
      show "(r p = Some w \<or> (p \<in> set (f # fs) \<and> strings_Contains p pat \<and> w \<in> qualifying repo ref t p)) \<and>
        (p \<in> set (f # fs) \<and> strings_Contains p pat \<longrightarrow>
           (\<forall>x \<in> qualifying repo ref t p. unixNano x \<le> unixNano w)) \<and>
        (\<forall>a. r p = Some a \<longrightarrow> unixNano a \<le> unixNano w)"
        using g1 g2 g3 by blast
    qed
    show ?thesis unfolding unroll using ih c1 c2 by blast
  qed
qed

lemma finite_qualifying: "finite (qualifying repo ref t p)"
  by (simp add: qualifying_def)

text \<open>
  Claim C1. Provided no log query of a matching file fails, the map built by the traversal
  has an entry for a path exactly when the path is a file of the tree, contains the pattern
  as a substring (byte for byte, so case-sensitively) and has a commit whose author time is
  strictly after the checkpoint; the time stored is the author time of such a commit, and
  its instant is the maximum over all of them.
\<close>

theorem detect_latest_qualifying:
  assumes "\<forall>f \<in> set files. strings_Contains f pattern \<longrightarrow> \<not> isl (Log repo ref f)"
  shows "fst (detect repo ref pattern lastTime files) = None \<and>
     (snd (detect repo ref pattern lastTime files) p \<noteq> None \<longleftrightarrow>
        p \<in> set files \<and> (\<exists>u v. p = u @ pattern @ v) \<and> qualifying repo ref lastTime p \<noteq> {}) \<and>
     (\<forall>w. snd (detect repo ref pattern lastTime files) p = Some w \<longrightarrow>
        w \<in> qualifying repo ref lastTime p \<and>
        unixNano w = Max (unixNano ` qualifying repo ref lastTime p))"
proof -
  note inv = files_ForEach_inv [OF assms, of lastTime Map.empty p]
  have a: "fst (detect repo ref pattern lastTime files) = None"
    using inv by (simp add: detect_def)
  have b: "snd (detect repo ref pattern lastTime files) p \<noteq> None \<longleftrightarrow>
      p \<in> set files \<and> (\<exists>u v. p = u @ pattern @ v) \<and> qualifying repo ref lastTime p \<noteq> {}"
    using inv unfolding detect_def strings_Contains_iff by simp
  have c: "\<forall>w. snd (detect repo ref pattern lastTime files) p = Some w \<longrightarrow>
      w \<in> qualifying repo ref lastTime p \<and>
      unixNano w = Max (unixNano ` qualifying repo ref lastTime p)"
  proof (intro allI impI)
    fix w assume w: "snd (detect repo ref pattern lastTime files) p = Some w"
    then have mem: "p \<in> set files \<and> strings_Contains p pattern \<and> w \<in> qualifying repo ref lastTime p"
      using inv by (simp add: detect_def)
    then have ub: "\<forall>x \<in> qualifying repo ref lastTime p. unixNano x \<le> unixNano w"
      using inv w by (simp add: detect_def)
    have "Max (unixNano ` qualifying repo ref lastTime p) = unixNano w"
    proof (rule Max_eqI)
      show "finite (unixNano ` qualifying repo ref lastTime p)"
        by (simp add: finite_qualifying)
      show "\<And>y. y \<in> unixNano ` qualifying repo ref lastTime p \<Longrightarrow> y \<le> unixNano w"
        using ub by auto
      show "unixNano w \<in> unixNano ` qualifying repo ref lastTime p"
        using mem by blast
    qed
    then show "w \<in> qualifying repo ref lastTime p \<and>
        unixNano w = Max (unixNano ` qualifying repo ref lastTime p)"
      using mem by simp
  qed
  show ?thesis using a b c by blast
qed

theorem detect_latest_qualifying_witness:
  "\<not> isl (Log scenario_repo 7 ''pkg/conf/app.yml'') \<and>
   strings_Contains ''pkg/conf/app.yml'' ''conf'' \<and>
   fst (detect scenario_repo 7 ''conf'' (at_ns (scenario_T - 5 * day_ns)) scenario_files) = None \<and>
   snd (detect scenario_repo 7 ''conf'' (at_ns (scenario_T - 5 * day_ns)) scenario_files)
     ''pkg/conf/app.yml'' \<noteq> None \<and>
   snd (detect scenario_repo 7 ''conf'' (at_ns (scenario_T - 1 * day_ns)) scenario_files)
     ''pkg/conf/app.yml'' = None"
proof -
  let ?p = "''pkg/conf/app.yml''"
  have h: "\<forall>f \<in> set scenario_files. strings_Contains f ''conf'' \<longrightarrow> \<not> isl (Log scenario_repo 7 f)"
    by (simp add: scenario_files_def scenario_repo_def)
  have l: "\<not> isl (Log scenario_repo 7 ?p)"
    by (simp add: scenario_repo_def)
  have c: "strings_Contains ?p ''conf''"
    by simp
  then have sub: "\<exists>u v. ?p = u @ ''conf'' @ v"
    unfolding strings_Contains_iff .
  have m: "?p \<in> set scenario_files"
    by (simp add: scenario_files_def)
  have "at_ns (scenario_T - 2 * day_ns) \<in> qualifying scenario_repo 7 (at_ns (scenario_T - 5 * day_ns)) ?p"
    by (simp add: qualifying_def commits_of_def scenario_repo_def scenario_commits_def
        at_ns_def day_ns_def scenario_T_def)
  then have q5: "qualifying scenario_repo 7 (at_ns (scenario_T - 5 * day_ns)) ?p \<noteq> {}"
    by blast
  have q1: "qualifying scenario_repo 7 (at_ns (scenario_T - 1 * day_ns)) ?p = {}"
    by (auto simp: qualifying_def commits_of_def scenario_repo_def scenario_commits_def
        at_ns_def day_ns_def scenario_T_def)
  show ?thesis
    using detect_latest_qualifying [OF h, of "at_ns (scenario_T - 5 * day_ns)" ?p]
      detect_latest_qualifying [OF h, of "at_ns (scenario_T - 1 * day_ns)" ?p]
      l c sub m q5 q1
    by blast
qed

lemma visit_commit_boundary:
  "unixNano (Author_When c) = unixNano t \<Longrightarrow> visit_commit t name c r = r"
  by (simp add: visit_commit_def Sub_pos_iff)

text \<open>
  Claim C2. A commit whose author time is exactly the checkpoint does not qualify: the
  callback leaves the map as it is, and the traversal of a repository gives the same result
  (error and map) as for the repository whose log of that file lacks the commit.
\<close>

theorem checkpoint_commit_contributes_nothing:
  assumes "unixNano (Author_When c) = unixNano lastTime"
    and "Log repo ref name = Inr (cs1 @ c # cs2)"
  shows "\<not> 0 < Sub (Author_When c) lastTime \<and>
     visit_commit lastTime name c result = result \<and>
     detect repo ref pattern lastTime files =
       detect (repo\<lparr>Log := (Log repo)(ref := (Log repo ref)(name := Inr (cs1 @ cs2)))\<rparr>)
         ref pattern lastTime files"
proof -
  let ?repo' = "repo\<lparr>Log := (Log repo)(ref := (Log repo ref)(name := Inr (cs1 @ cs2)))\<rparr>"
  have "visit_file repo ref pattern lastTime r f = visit_file ?repo' ref pattern lastTime r f"
    for r f
    using assms by (cases "f = name") (simp_all add: visit_file_def visit_commit_boundary)
  then have "visit_file repo ref pattern lastTime = visit_file ?repo' ref pattern lastTime"
    by (intro ext)
  then show ?thesis
    using assms by (simp add: detect_def visit_commit_def Sub_pos_iff)
qed

theorem checkpoint_commit_contributes_nothing_witness:
  "unixNano (Author_When (hd scenario_commits)) = unixNano (at_ns (scenario_T - 2 * day_ns)) \<and>
   Log scenario_repo 7 ''pkg/conf/app.yml'' = Inr ([] @ hd scenario_commits # tl scenario_commits) \<and>
   visit_commit (at_ns (scenario_T - 2 * day_ns)) ''pkg/conf/app.yml'' (hd scenario_commits) Map.empty
     = Map.empty \<and>
   snd (detect scenario_repo 7 ''conf'' (at_ns (scenario_T - 2 * day_ns)) scenario_files)
     ''pkg/conf/app.yml'' = None"
proof -
  have h1: "unixNano (Author_When (hd scenario_commits)) = unixNano (at_ns (scenario_T - 2 * day_ns))"
    by (simp add: scenario_commits_def at_ns_def)
  have h2: "Log scenario_repo 7 ''pkg/conf/app.yml'' = Inr ([] @ hd scenario_commits # tl scenario_commits)"
    by (simp add: scenario_repo_def scenario_commits_def)
  have run: "snd (detect scenario_repo 7 ''conf'' (at_ns (scenario_T - 2 * day_ns)) scenario_files)
      ''pkg/conf/app.yml'' = None"
    by (simp add: detect_def visit_file_def visit_commit_def Sub_def scenario_files_def
        scenario_repo_def scenario_commits_def at_ns_def day_ns_def scenario_T_def)
  show ?thesis
    using checkpoint_commit_contributes_nothing [OF h1 h2, of Map.empty "''conf''" scenario_files]
      h1 h2 run by simp
qed

section \<open>Proofs: scanning a repository and writing the report\<close>

text \<open>
  Claim C3 asks that a failing log query of a matching file makes \<^verbatim>\<open>checkRepository\<close>
  return an error. The callback does return the error, and \<^verbatim>\<open>ForEach\<close> passes it on, but
  \<^verbatim>\<open>checkRepository\<close> drops what \<^verbatim>\<open>ForEach\<close> returns: on a repository all of whose log
  queries fail the traversal ends with the error, and \<^verbatim>\<open>checkRepository\<close> returns no
  error and writes nothing.
\<close>

theorem log_error_is_dropped:
  "fst (detect broken_repo 7 ''conf'' (at_ns 0) scenario_files) = Some (Failure ''object not found'') \<and>
   checkRepository example_env example_config ''broken''
       ''https://wesure@bitbucket.org/wesure/broken.git'' (at_ns 0) ''result/2019-12-10.txt''
       example_world
     = (None, example_world\<lparr>cleanPaths := [''clone/broken''], clones := [''clone/broken'']\<rparr>)"
  by (simp add: detect_def visit_file_def broken_repo_def scenario_files_def checkRepository_def
      scan_repository_def write_result_def range_map_def example_env_def example_config_def
      example_world_def Let_def)

lemma range_map_set: "set (range_map order m) = {(k, v). k \<in> set order \<and> m k = Some v}"
  by (auto simp: range_map_def)

lemma range_map_graph: "dom m \<subseteq> set order \<Longrightarrow> set (range_map order m) = Map.graph m"
  by (auto simp: range_map_set Map.graph_def)

lemma range_map_keys: "map fst (range_map order m) = filter (\<lambda>k. m k \<noteq> None) (remdups order)"
  by (simp add: range_map_def comp_def)

lemma range_map_distinct: "distinct (map fst (range_map order m))"
  by (simp add: range_map_keys)

lemma range_map_empty: "range_map order Map.empty = []"
  by (simp add: range_map_def)

lemma range_map_mset:
  assumes "dom m \<subseteq> set o1" "dom m \<subseteq> set o2"
  shows "mset (range_map o1 m) = mset (range_map o2 m)"
proof -
  have "distinct (range_map o1 m)" "distinct (range_map o2 m)"
    using range_map_distinct distinct_map by blast+
  moreover have "set (range_map o1 m) = set (range_map o2 m)"
    using assms by (simp add: range_map_graph)
  ultimately show ?thesis by (simp add: set_eq_iff_mset_eq_distinct)
qed

lemma write_entries_ok:
  "nodes w fd = File b \<Longrightarrow> length (entries_text repos es) \<le> room w \<Longrightarrow>
     write_entries fd repos es w =
       (None, w\<lparr>nodes := (nodes w)(fd := File (b @ entries_text repos es)),
                room := room w - length (entries_text repos es)\<rparr>)"
proof (induction es arbitrary: w b)
  case Nil
  have "(nodes w)(fd := File b) = nodes w" using Nil by auto
  then show ?case by (simp add: entries_text_def)
next
  case (Cons e es)
  obtain key val where e: "e = (key, val)" by (cases e)
  let ?l = "report_line repos key val"
  let ?w = "w\<lparr>nodes := (nodes w)(fd := File (b @ ?l)), room := room w - length ?l\<rparr>"
  have len: "length ?l + length (entries_text repos es) \<le> room w"
    using Cons.prems by (simp add: entries_text_def e)
  have step: "WriteString fd ?l w = (None, ?w)"
    using Cons.prems len by (simp add: WriteString_def)
  have "write_entries fd repos es ?w =
      (None, ?w\<lparr>nodes := (nodes ?w)(fd := File ((b @ ?l) @ entries_text repos es)),
                room := room ?w - length (entries_text repos es)\<rparr>)"
    using len by (intro Cons.IH) auto
  moreover have "(nodes ?w)(fd := File ((b @ ?l) @ entries_text repos es)) =
      (nodes w)(fd := File (b @ entries_text repos (e # es)))"
    by (simp add: e entries_text_def)
  moreover have "room ?w - length (entries_text repos es) =
      room w - length (entries_text repos (e # es))"
    by (simp add: e entries_text_def)
  ultimately have "write_entries fd repos es ?w =
      (None, w\<lparr>nodes := (nodes w)(fd := File (b @ entries_text repos (e # es))),
                room := room w - length (entries_text repos (e # es))\<rparr>)"
    by simp
  then show ?case using step by (simp add: e fun_upd_def)
qed


lemma range_map_Nil_iff: "dom m \<subseteq> set order \<Longrightarrow> range_map order m = [] \<longleftrightarrow> m = Map.empty"
proof -
  assume d: "dom m \<subseteq> set order"
  have "range_map order m = [] \<longleftrightarrow> set (range_map order m) = {}" by simp
  also have "\<dots> \<longleftrightarrow> dom m = {}"
    using d by (auto simp: range_map_set dom_def)
  finally show ?thesis by simp
qed

lemma write_result_ok:
  assumes "dom result \<subseteq> set order"
    and "nodes w fd = File b"
    and "length (entries_text repos (range_map order result)) + 1 \<le> room w"
  shows "fst (write_result order fd repos result w) = None \<and>
     nodes (snd (write_result order fd repos result w)) fd =
       File (b @ entries_text repos (range_map order result)
               @ (if result = Map.empty then [] else [newline]))"
proof -
  let ?t = "entries_text repos (range_map order result)"
  let ?w = "w\<lparr>nodes := (nodes w)(fd := File (b @ ?t)), room := room w - length ?t\<rparr>"
  have e: "write_entries fd repos (range_map order result) w = (None, ?w)"
    using assms by (intro write_entries_ok) auto
  have "nodes (snd (WriteString fd [newline] ?w)) fd = File (b @ ?t @ [newline])"
    using assms by (simp add: WriteString_def)
  then show ?thesis
    using e range_map_Nil_iff [OF assms(1)] by (simp add: write_result_def)
qed

lemma write_result_empty: "write_result order fd repos Map.empty w = (None, w)"
  by (simp add: write_result_def range_map_empty)

lemma example_format:
  "Format_DateFormat (at_ns scenario_T) = ''Tue Dec 10 13:07:28 2019 +0800'' \<and>
   Format_DateFormat (at_ns (scenario_T - 2 * day_ns)) = ''Sun Dec 08 13:07:28 2019 +0800''"
  by code_simp

text \<open>
  Claim C8. When the writes succeed, the report of a repository is one line per entry of
  the result, each entry of the map once, of the form
  \<^verbatim>\<open><path> in repository(<name>) has changed in latest time(<time>)\<close>, followed by one
  empty line when the map is not empty; for the empty map nothing is written and nothing
  else changes.
\<close>

theorem report_block:
  assumes "dom result \<subseteq> set order"
    and "nodes w fd = File b"
    and "length (entries_text repos (range_map order result)) + 1 \<le> room w"
  shows "fst (write_result order fd repos result w) = None \<and>
     nodes (snd (write_result order fd repos result w)) fd =
       File (b @ concat (map (\<lambda>(key, val).
                 key @ '' in repository('' @ repos @ '') has changed in latest time(''
                   @ Format_DateFormat val @ '')'' @ [newline]) (range_map order result))
               @ (if result = Map.empty then [] else [newline])) \<and>
     distinct (range_map order result) \<and>
     set (range_map order result) = Map.graph result \<and>
     write_result order fd repos Map.empty w = (None, w)"
proof -
  have "distinct (range_map order result)"
    using range_map_distinct distinct_map by blast
  moreover have "set (range_map order result) = Map.graph result"
    using assms(1) by (rule range_map_graph)
  moreover have "entries_text repos (range_map order result) =
      concat (map (\<lambda>(key, val).
                 key @ '' in repository('' @ repos @ '') has changed in latest time(''
                   @ Format_DateFormat val @ '')'' @ [newline]) (range_map order result))"
    by (simp add: entries_text_def report_line_def)
  ultimately show ?thesis
    using write_result_ok [OF assms] write_result_empty by simp
qed

theorem report_block_witness:
  "nodes (snd (write_result [''README.md'', ''pkg/conf/app.yml''] ''result/2019-12-10.txt''
       ''alert-enricher'' [''pkg/conf/app.yml'' \<mapsto> at_ns scenario_T] example_world))
     ''result/2019-12-10.txt'' =
   File (''pkg/conf/app.yml in repository(alert-enricher) has changed in latest time(Tue Dec 10 13:07:28 2019 +0800)''
         @ [newline, newline])"
proof -
  let ?m = "[''pkg/conf/app.yml'' \<mapsto> at_ns scenario_T]"
  let ?o = "[''README.md'', ''pkg/conf/app.yml'']"
  have r: "range_map ?o ?m = [(''pkg/conf/app.yml'', at_ns scenario_T)]"
    by (simp add: range_map_def)
  have h1: "dom ?m \<subseteq> set ?o" by simp
  have h2: "nodes example_world ''result/2019-12-10.txt'' = File []"
    by (simp add: example_world_def)
  have h3: "length (entries_text ''alert-enricher'' (range_map ?o ?m)) + 1 \<le> room example_world"
    by (simp add: r entries_text_def report_line_def example_format example_world_def)
  have ne: "?m \<noteq> Map.empty" by simp
  show ?thesis
    using report_block [OF h1 h2 h3] ne by (simp add: r example_format)
qed


lemma example_orders:
  "range_map [''conf/a.yml'', ''conf/b.yml''] two_entries =
     [(''conf/a.yml'', at_ns scenario_T), (''conf/b.yml'', at_ns (scenario_T - 2 * day_ns))] \<and>
   range_map [''conf/b.yml'', ''conf/a.yml''] two_entries =
     [(''conf/b.yml'', at_ns (scenario_T - 2 * day_ns)), (''conf/a.yml'', at_ns scenario_T)]"
  by (simp add: range_map_def two_entries_def)

text \<open>
  Claim C4 says the text of the report is a function of the result. The lines are written
  in the order \<^verbatim>\<open>range\<close> visits the map, which Go leaves open: the same result with two
  entries gives two different texts.
\<close>

theorem report_order_counterexample:
  "dom two_entries \<subseteq> set [''conf/a.yml'', ''conf/b.yml''] \<and>
   dom two_entries \<subseteq> set [''conf/b.yml'', ''conf/a.yml''] \<and>
   nodes (snd (write_result [''conf/a.yml'', ''conf/b.yml''] ''result/2019-12-10.txt'' ''alert-enricher''
       two_entries example_world)) ''result/2019-12-10.txt''
   \<noteq> nodes (snd (write_result [''conf/b.yml'', ''conf/a.yml''] ''result/2019-12-10.txt'' ''alert-enricher''
       two_entries example_world)) ''result/2019-12-10.txt''"
proof -
  have d: "dom two_entries = {''conf/a.yml'', ''conf/b.yml''}"
    by (auto simp: two_entries_def)
  show ?thesis
    using d
    by (simp add: write_result_def example_orders WriteString_def report_line_def example_format
        example_world_def)
qed

lemma mset_eq_short: "mset xs = mset ys \<Longrightarrow> length xs \<le> 1 \<Longrightarrow> xs = ys"
proof (cases xs)
  case Nil
  assume "mset xs = mset ys"
  then show ?thesis using Nil by simp
next
  case (Cons x xs')
  assume a: "mset xs = mset ys" and "length xs \<le> 1"
  then have xs: "xs = [x]" using Cons by simp
  then have "mset ys = {#x#}" using a by simp
  then show ?thesis using xs by (simp add: mset_single_iff_right)
qed

lemma length_concat_mset: "mset xs = mset ys \<Longrightarrow> length (concat xs) = length (concat ys)"
proof -
  assume "mset xs = mset ys"
  then have "mset (map length xs) = mset (map length ys)" by (metis mset_map)
  then have "sum_list (map length xs) = sum_list (map length ys)"
    by (metis sum_mset_sum_list)
  then show ?thesis by (simp add: length_concat)
qed

text \<open>
  Claim C4, amended. Whatever the order in which \<^verbatim>\<open>range\<close> visits the result, when the
  writes succeed the report receives the lines of the entries, one after the other in the
  order of the visit, then the same separator; the lines of two orders are the same up to
  their order, each a function of its entry; for a result of at most one entry the two runs
  of the function agree altogether.
\<close>

theorem report_lines_up_to_order:
  assumes "dom result \<subseteq> set o1" and "dom result \<subseteq> set o2"
    and "nodes w fd = File b"
    and "length (entries_text repos (range_map o1 result)) + 1 \<le> room w"
  shows "nodes (snd (write_result o1 fd repos result w)) fd =
       File (b @ concat (map (\<lambda>(key, val). report_line repos key val) (range_map o1 result))
               @ (if result = Map.empty then [] else [newline])) \<and>
     nodes (snd (write_result o2 fd repos result w)) fd =
       File (b @ concat (map (\<lambda>(key, val). report_line repos key val) (range_map o2 result))
               @ (if result = Map.empty then [] else [newline])) \<and>
     mset (map (\<lambda>(key, val). report_line repos key val) (range_map o1 result)) =
       mset (map (\<lambda>(key, val). report_line repos key val) (range_map o2 result)) \<and>
     (card (dom result) \<le> 1 \<longrightarrow>
        write_result o1 fd repos result w = write_result o2 fd repos result w)"
proof -
  have m: "mset (range_map o1 result) = mset (range_map o2 result)"
    using assms(1,2) by (rule range_map_mset)
  then have lines: "mset (map (\<lambda>(key, val). report_line repos key val) (range_map o1 result)) =
      mset (map (\<lambda>(key, val). report_line repos key val) (range_map o2 result))"
    by simp
  then have "length (entries_text repos (range_map o2 result)) =
      length (entries_text repos (range_map o1 result))"
    unfolding entries_text_def by (intro length_concat_mset) simp
  then have room2: "length (entries_text repos (range_map o2 result)) + 1 \<le> room w"
    using assms(4) by simp
  note w1 = write_result_ok [OF assms(1) assms(3) assms(4)]
  note w2 = write_result_ok [OF assms(2) assms(3) room2]
  have "write_result o1 fd repos result w = write_result o2 fd repos result w"
    if c: "card (dom result) \<le> 1"
  proof -
    have "set (map fst (range_map o1 result)) = dom result"
      using assms(1) by (auto simp: range_map_set dom_def image_iff)
    then have "card (set (map fst (range_map o1 result))) \<le> 1" using c by simp
    moreover have "card (set (map fst (range_map o1 result))) = length (map fst (range_map o1 result))"
      using range_map_distinct [of o1 result] by (rule distinct_card)
    ultimately have "length (map fst (range_map o1 result)) \<le> 1"
      by (simp only:)
    then have "length (range_map o1 result) \<le> 1" by simp
    then have "range_map o1 result = range_map o2 result"
      using m by (rule mset_eq_short [rotated])
    then show ?thesis unfolding write_result_def by (simp only:)
  qed
  then show ?thesis using lines w1 w2 by (simp add: entries_text_def)
qed

theorem report_lines_up_to_order_witness:
  "nodes (snd (write_result [''conf/b.yml'', ''conf/a.yml''] ''result/2019-12-10.txt'' ''alert-enricher''
       two_entries example_world)) ''result/2019-12-10.txt'' =
     File (report_line ''alert-enricher'' ''conf/b.yml'' (at_ns (scenario_T - 2 * day_ns)) @
           report_line ''alert-enricher'' ''conf/a.yml'' (at_ns scenario_T) @ [newline]) \<and>
   mset (map (\<lambda>(key, val). report_line ''alert-enricher'' key val)
       (range_map [''conf/a.yml'', ''conf/b.yml''] two_entries)) =
   mset (map (\<lambda>(key, val). report_line ''alert-enricher'' key val)
       (range_map [''conf/b.yml'', ''conf/a.yml''] two_entries))"
proof -
  have d: "dom two_entries = {''conf/a.yml'', ''conf/b.yml''}"
    by (auto simp: two_entries_def)
  have h1: "dom two_entries \<subseteq> set [''conf/a.yml'', ''conf/b.yml'']" using d by simp
  have h2: "dom two_entries \<subseteq> set [''conf/b.yml'', ''conf/a.yml'']" using d by simp
  have h3: "nodes example_world ''result/2019-12-10.txt'' = File []"
    by (simp add: example_world_def)
  have h4: "length (entries_text ''alert-enricher''
      (range_map [''conf/a.yml'', ''conf/b.yml''] two_entries)) + 1 \<le> room example_world"
    by (simp add: example_orders entries_text_def report_line_def example_format example_world_def)
  have "dom two_entries \<noteq> {}" unfolding d by (rule insert_not_empty)
  then have "two_entries \<noteq> Map.empty" unfolding dom_eq_empty_conv .
  then have ne: "(two_entries = Map.empty) = False" by (rule eq_False [THEN iffD2])
  have o2: "range_map [''conf/b.yml'', ''conf/a.yml''] two_entries =
     [(''conf/b.yml'', at_ns (scenario_T - 2 * day_ns)), (''conf/a.yml'', at_ns scenario_T)]"
    using example_orders by (rule conjunct2)
  note t = report_lines_up_to_order [OF h1 h2 h3 h4]
  have a: "nodes (snd (write_result [''conf/b.yml'', ''conf/a.yml''] ''result/2019-12-10.txt''
       ''alert-enricher'' two_entries example_world)) ''result/2019-12-10.txt'' =
     File (report_line ''alert-enricher'' ''conf/b.yml'' (at_ns (scenario_T - 2 * day_ns)) @
           report_line ''alert-enricher'' ''conf/a.yml'' (at_ns scenario_T) @ [newline])"
    using t [THEN conjunct2, THEN conjunct1]
    by (simp only: o2 ne if_False list.map concat.simps prod.case append_Nil append_Nil2 append_assoc)
  show ?thesis using a t [THEN conjunct2, THEN conjunct2, THEN conjunct1] by (rule conjI)
qed

section \<open>Proofs: the repositories of the account\<close>

lemma after_last:
  "slice_from s (strings_LastIndex s c + 1) = rev (takeWhile (\<lambda>x. x \<noteq> c) (rev s))"
proof (cases "c \<in> set s")
  case False
  then have tw: "takeWhile (\<lambda>x. x \<noteq> c) (rev s) = rev s"
    by (auto simp: takeWhile_eq_all_conv)
  show ?thesis using False by (simp add: slice_from_def strings_LastIndex_def tw)
next
  case True
  define t where "t = takeWhile (\<lambda>x. x \<noteq> c) (rev s)"
  define r where "r = dropWhile (\<lambda>x. x \<noteq> c) (rev s)"
  have split: "rev s = t @ r" by (simp add: t_def r_def)
  have "r \<noteq> []" using True by (auto simp: r_def dropWhile_eq_Nil_conv)
  then have len: "length t < length s"
    using arg_cong [OF split, of length] by (cases r) auto
  have s: "s = rev r @ rev t" using arg_cong [OF split, of rev] by simp
  have "nat (int (length s) - 1 - int (length t) + 1) = length s - length t"
    using len by simp
  also have "\<dots> = length (rev r)" using arg_cong [OF s, of length] by simp
  finally have "drop (nat (int (length s) - 1 - int (length t) + 1)) s = rev t"
    using s by (metis append_eq_conv_conj)
  then show ?thesis using True by (simp add: slice_from_def strings_LastIndex_def t_def)
qed

lemma takeWhile_prefix:
  "(\<forall>x \<in> set xs. P x) \<Longrightarrow> \<not> P y \<Longrightarrow> takeWhile P (xs @ y # ys) = xs"
  by (induction xs) auto

lemma link_entry_https:
  assumes "link_name l = ''https''" and "CHR '' '' \<notin> set (link_href l)"
  shows "link_entry l =
     Some (takeWhile (\<lambda>c. c \<noteq> CHR ''.'')
             (rev (takeWhile (\<lambda>c. c \<noteq> CHR ''/'') (rev (link_href l)))),
           link_href l)"
proof -
  let ?h = "link_href l"
  have f: "Sprintf_v l = (''map[href:'' @ ?h) @ CHR '' '' # ''name:https]''"
    using assms by (simp add: Sprintf_v_def)
  have "Sprintf_v l = (''map[href:'' @ ?h @ '' name:'') @ ''https'' @ '']''"
    using assms by (simp add: Sprintf_v_def)
  then have c: "strings_Contains (Sprintf_v l) ''https''"
    unfolding strings_Contains_iff by blast
  have head: "Split_first (Sprintf_v l) (CHR '' '') = ''map[href:'' @ ?h"
    unfolding Split_first_def f using assms by (intro takeWhile_prefix) auto
  have "takeWhile (\<lambda>x. x \<noteq> CHR '':'') (''map[href'' @ CHR '':'' # ?h) = ''map[href''"
    by (intro takeWhile_prefix) auto
  then have idx: "strings_Index (''map[href:'' @ ?h) (CHR '':'') = 8"
    by (simp add: strings_Index_def)
  have val: "slice_from (''map[href:'' @ ?h) (8 + 1) = ?h"
    by (simp add: slice_from_def)
  show ?thesis
    unfolding link_entry_def Let_def head idx val after_last using c
    by (simp add: Split_first_def)
qed

lemma first_https_skip:
  "\<forall>x \<in> set ls1. \<not> strings_Contains (Sprintf_v x) ''https'' \<Longrightarrow>
     first_https (ls1 @ ls2) = first_https ls2"
  by (induction ls1) (auto simp: link_entry_def Let_def)

lemma fold_add_item_keep:
  "\<forall>it \<in> set zs. \<forall>v. first_https (Links_clone it) \<noteq> Some (k, v) \<Longrightarrow>
     fold add_item zs m k = m k"
proof (induction zs arbitrary: m)
  case Nil
  then show ?case by simp
next
  case (Cons z zs)
  have "add_item z m k = m k"
    using Cons.prems by (auto simp: add_item_def split: option.splits)
  then show ?case using Cons by simp
qed

lemma fold_add_item_last:
  assumes "first_https (Links_clone b) = Some (k, vb)"
    and "\<forall>it \<in> set zs. \<forall>v. first_https (Links_clone it) \<noteq> Some (k, v)"
  shows "fold add_item (xs @ b # zs) m k = Some vb"
proof -
  have "fold add_item (xs @ b # zs) m k = fold add_item zs (add_item b (fold add_item xs m)) k"
    by simp
  also have "\<dots> = add_item b (fold add_item xs m) k"
    using assms(2) by (rule fold_add_item_keep)
  also have "\<dots> = Some vb" using assms(1) by (simp add: add_item_def)
  finally show ?thesis .
qed

text \<open>
  Claim C10. For an item whose first link printing with \<^verbatim>\<open>https\<close> in it is the link named
  \<^verbatim>\<open>https\<close> (its URL without a space), the value stored is the URL and the key is what
  follows the last \<^verbatim>\<open>/\<close> of the URL, cut at its first \<^verbatim>\<open>.\<close>. Of two items of the listing
  with the same key the later one decides the entry of the map, unless an item after it has
  that key too. \<^verbatim>\<open>main\<close> hands each key of the map to \<^verbatim>\<open>checkRepository\<close>, which joins it
  to the clone directory and prints it in the report lines.
\<close>

theorem repository_key:
  "(link_name l = ''https'' \<and> CHR '' '' \<notin> set (link_href l) \<and>
      (\<forall>x \<in> set ls1. \<not> strings_Contains (Sprintf_v x) ''https'') \<longrightarrow>
      first_https (ls1 @ l # ls2) =
        Some (takeWhile (\<lambda>c. c \<noteq> CHR ''.'')
                (rev (takeWhile (\<lambda>c. c \<noteq> CHR ''/'') (rev (link_href l)))),
              link_href l)) \<and>
   (ListForAccount e c = Inr (xs @ a # ys @ b # zs) \<and>
      first_https (Links_clone a) = Some (k, va) \<and>
      first_https (Links_clone b) = Some (k, vb) \<and>
      (\<forall>it \<in> set zs. \<forall>v. first_https (Links_clone it) \<noteq> Some (k, v)) \<longrightarrow>
      (\<exists>m. retrieveRepositories e c = Inr m \<and> m k = Some vb))"
proof (intro conjI impI)
  assume h: "link_name l = ''https'' \<and> CHR '' '' \<notin> set (link_href l) \<and>
      (\<forall>x \<in> set ls1. \<not> strings_Contains (Sprintf_v x) ''https'')"
  then have "first_https (ls1 @ l # ls2) = first_https (l # ls2)"
    by (intro first_https_skip) simp
  then show "first_https (ls1 @ l # ls2) =
        Some (takeWhile (\<lambda>c. c \<noteq> CHR ''.'')
                (rev (takeWhile (\<lambda>c. c \<noteq> CHR ''/'') (rev (link_href l)))),
              link_href l)"
    using h by (simp add: link_entry_https)
next
  assume h: "ListForAccount e c = Inr (xs @ a # ys @ b # zs) \<and>
      first_https (Links_clone a) = Some (k, va) \<and>
      first_https (Links_clone b) = Some (k, vb) \<and>
      (\<forall>it \<in> set zs. \<forall>v. first_https (Links_clone it) \<noteq> Some (k, v))"
  have "fold add_item ((xs @ a # ys) @ b # zs) Map.empty k = Some vb"
    using h by (intro fold_add_item_last) auto
  then show "\<exists>m. retrieveRepositories e c = Inr m \<and> m k = Some vb"
    using h by (simp add: retrieveRepositories_def)
qed

lemma example_keys:
  "first_https (Links_clone (colliding_items ! 0)) =
     Some (''app'', ''https://wesure@bitbucket.org/wesure/app.git'') \<and>
   first_https (Links_clone (colliding_items ! 1)) =
     Some (''app'', ''https://wesure@bitbucket.org/wesure/app.v2.git'')"
  by code_simp

theorem repository_key_witness:
  "first_https (Links_clone (example_items ! 1)) =
     Some (''broken'', ''https://wesure@bitbucket.org/wesure/broken.git'') \<and>
   (\<exists>m. retrieveRepositories (example_env\<lparr>ListForAccount := (\<lambda>c. Inr colliding_items)\<rparr>) example_config
           = Inr m \<and>
        m ''app'' = Some ''https://wesure@bitbucket.org/wesure/app.v2.git'')"
proof -
  let ?ssh = "\<lparr>link_href = ''git@bitbucket.org:wesure/broken.git'', link_name = ''ssh''\<rparr>"
  let ?l = "\<lparr>link_href = ''https://wesure@bitbucket.org/wesure/broken.git'', link_name = ''https''\<rparr>"
  let ?e = "example_env\<lparr>ListForAccount := (\<lambda>c. Inr colliding_items)\<rparr>"
  have i: "Links_clone (example_items ! 1) = [?ssh] @ ?l # []"
    by (simp add: example_items_def)
  have s: "\<not> strings_Contains (Sprintf_v ?ssh) ''https''"
    by (simp add: Sprintf_v_def)
  have k: "takeWhile (\<lambda>c. c \<noteq> CHR ''.'')
      (rev (takeWhile (\<lambda>c. c \<noteq> CHR ''/'') (rev (link_href ?l)))) = ''broken''"
    by simp
  have c: "ListForAccount ?e example_config = Inr ([] @ colliding_items ! 0 # [] @ colliding_items ! 1 # [])"
    by (simp add: colliding_items_def)
  show ?thesis
    using repository_key [of ?l "[?ssh]" "[]" ?e example_config "[]" "colliding_items ! 0" "[]"
        "colliding_items ! 1" "[]" "''app''" "''https://wesure@bitbucket.org/wesure/app.git''"
        "''https://wesure@bitbucket.org/wesure/app.v2.git''"]
      i s k c example_keys
    by simp
qed

section \<open>Proofs: the run and the checkpoint file\<close>

lemma nodes_WriteString: "p \<noteq> fd \<Longrightarrow> nodes (snd (WriteString fd s w)) p = nodes w p"
  by (simp add: WriteString_def split: node.splits)

lemma nodes_OpenFile: "p \<noteq> fd \<Longrightarrow> nodes (snd (OpenFile fd w)) p = nodes w p"
  by (simp add: OpenFile_def split: node.splits)

lemma nodes_prepareDir: "p \<noteq> dir \<Longrightarrow> nodes (snd (prepareDir dir w)) p = nodes w p"
  by (simp add: prepareDir_def Mkdir_def os_Stat_def split: node.splits)

lemma nodes_write_entries:
  "p \<noteq> fd \<Longrightarrow> nodes (snd (write_entries fd repos es w)) p = nodes w p"
proof (induction es arbitrary: w)
  case Nil
  then show ?case by simp
next
  case (Cons x es)
  obtain key val where x: "x = (key, val)" by (cases x)
  obtain r w' where s: "WriteString fd (report_line repos key val) w = (r, w')"
    by (cases "WriteString fd (report_line repos key val) w")
  have "nodes w' p = nodes w p"
    using nodes_WriteString [OF Cons.prems, of "report_line repos key val" w] s by simp
  then show ?case using Cons s x by (cases r) simp_all
qed

lemma nodes_write_result:
  "p \<noteq> fd \<Longrightarrow> nodes (snd (write_result order fd repos result w)) p = nodes w p"
proof -
  assume p: "p \<noteq> fd"
  obtain r w' where s: "write_entries fd repos (range_map order result) w = (r, w')"
    by (cases "write_entries fd repos (range_map order result) w")
  have "nodes w' p = nodes w p"
    using nodes_write_entries [OF p, of repos "range_map order result" w] s by simp
  then show ?thesis
    using s p by (cases r) (simp_all add: write_result_def nodes_WriteString)
qed

lemma nodes_scan_repository:
  "p \<noteq> fd \<Longrightarrow> nodes (snd (scan_repository order c repos lastTime fd repository w)) p = nodes w p"
  by (simp add: scan_repository_def nodes_write_result split: sum.splits)

lemma nodes_checkRepository:
  "p \<noteq> fd \<Longrightarrow> nodes (snd (checkRepository e c repos url lastTime fd w)) p = nodes w p"
  by (simp add: checkRepository_def Let_def nodes_scan_repository split: sum.splits)

lemma nodes_check_all:
  "p \<noteq> fd \<Longrightarrow> nodes (snd (check_all e c lastTime fd rs w)) p = nodes w p"
proof (induction rs arbitrary: w)
  case Nil
  then show ?case by simp
next
  case (Cons x rs)
  obtain repos url where x: "x = (repos, url)" by (cases x)
  obtain r w' where s: "checkRepository e c repos url lastTime fd w = (r, w')"
    by (cases "checkRepository e c repos url lastTime fd w")
  have "nodes w' p = nodes w p"
    using nodes_checkRepository [OF Cons.prems, of e c repos url lastTime w] s by simp
  then show ?case using Cons s x by (cases r) simp_all
qed

lemma nodes_cleanup: "nodes (cleanup w) = nodes w"
  by (simp add: cleanup_def)

lemma report_name_neq: "checkFileName \<noteq> report_name e"
  by (simp add: report_name_def checkFileName_def resultDir_def)

lemma resultDir_neq: "checkFileName \<noteq> resultDir"
  by (simp add: checkFileName_def resultDir_def)

text \<open>What \<^verbatim>\<open>writeCheckTime\<close> does to the checkpoint file, by the outcome of \<^verbatim>\<open>OpenFile\<close>.\<close>

lemma writeCheckTime_cases:
  "(fst (writeCheckTime e filename w) = None \<and>
      nodes (snd (writeCheckTime e filename w)) filename =
        File (take (room w) (Format_DateFormat (start e)))) \<or>
   (fst (writeCheckTime e filename w) \<noteq> None \<and> snd (writeCheckTime e filename w) = w)"
  by (cases "nodes w filename")
    (auto simp: writeCheckTime_def OpenFile_def WriteString_def)

lemma check_and_save_cases:
  fixes e :: env and c :: Config and lastTime :: time and fd :: string
    and repositories :: "string \<rightharpoonup> string" and w :: world
  assumes fd: "checkFileName \<noteq> fd"
  defines "r \<equiv> check_all e c lastTime fd (range_map (repos_order e) repositories) w"
  shows "(\<forall>err. fst r = Some err \<longrightarrow>
            fst (check_and_save e c lastTime fd repositories w) = Panic err) \<and>
     (fst (check_and_save e c lastTime fd repositories w) \<noteq> Returned \<longrightarrow>
        nodes (snd (check_and_save e c lastTime fd repositories w)) checkFileName
          = nodes w checkFileName) \<and>
     (fst (check_and_save e c lastTime fd repositories w) = Returned \<longrightarrow>
        fst r = None \<and>
        nodes (snd (check_and_save e c lastTime fd repositories w)) checkFileName
          = File (take (room (snd r)) (Format_DateFormat (start e))))"
proof -
  obtain x w1 where r: "r = (x, w1)" by (cases r)
  have keep: "nodes w1 checkFileName = nodes w checkFileName"
    using nodes_check_all [OF fd, of e c lastTime "range_map (repos_order e) repositories" w] r
    by (simp add: r_def)
  show ?thesis
  proof (cases x)
    case (Some err)
    then show ?thesis
      using r keep by (simp add: check_and_save_def r_def [symmetric] nodes_cleanup)
  next
    case None
    obtain y w2 where s: "writeCheckTime e checkFileName w1 = (y, w2)"
      by (cases "writeCheckTime e checkFileName w1")
    show ?thesis
      using writeCheckTime_cases [of e checkFileName w1] r None s keep
      by (cases y) (auto simp: check_and_save_def r_def [symmetric] nodes_cleanup)
  qed
qed


lemma main_checkpoint:
  "(fst (main e w) \<noteq> Returned \<longrightarrow> nodes (snd (main e w)) checkFileName = nodes w checkFileName) \<and>
   (fst (main e w) = Returned \<longrightarrow>
      (\<exists>w0 lastTime conf repositories w1.
         prepareDir resultDir w = (None, w0) \<and>
         readCheckTime e checkFileName w0 = Inr lastTime \<and>
         parseYamlFile e configFileName w0 = Inr conf \<and>
         retrieveRepositories e conf = Inr repositories \<and>
         OpenFile (report_name e) w0 = (None, w1) \<and>
         fst (check_all e conf lastTime (report_name e)
                (range_map (repos_order e) repositories) w1) = None \<and>
         nodes (snd (main e w)) checkFileName =
           File (take (room (snd (check_all e conf lastTime (report_name e)
                   (range_map (repos_order e) repositories) w1)))
                 (Format_DateFormat (start e)))))"
proof -
  obtain x w0 where p: "prepareDir resultDir w = (x, w0)"
    by (cases "prepareDir resultDir w")
  have k0: "nodes w0 checkFileName = nodes w checkFileName"
    using nodes_prepareDir [OF resultDir_neq, of w] p by simp
  show ?thesis
  proof (cases x)
    case (Some err)
    then show ?thesis using p k0 by (simp add: main_def)
  next
    case None
    note x = None
    show ?thesis
    proof (cases "readCheckTime e checkFileName w0")
      case (Inl err)
      then show ?thesis using p x k0 by (simp add: main_def)
    next
      case (Inr lastTime)
      note l = Inr
      have m: "main e w = configure_and_check e lastTime w0"
        using p x l by (simp add: main_def)
      show ?thesis
      proof (cases "parseYamlFile e configFileName w0")
        case (Inl err)
        then show ?thesis using m k0 by (simp add: configure_and_check_def)
      next
        case (Inr conf)
        note c = Inr
        show ?thesis
        proof (cases "retrieveRepositories e conf")
          case (Inl err)
          then show ?thesis using m c k0 by (simp add: configure_and_check_def)
        next
          case (Inr repositories)
          note r = Inr
          obtain y w1 where o: "OpenFile (report_name e) w0 = (y, w1)"
            by (cases "OpenFile (report_name e) w0")
          have k1: "nodes w1 checkFileName = nodes w checkFileName"
            using nodes_OpenFile [OF report_name_neq, of e w0] o k0 by simp
          show ?thesis
          proof (cases y)
            case (Some err)
            then show ?thesis using m c r o k1 by (simp add: configure_and_check_def)
          next
            case None
            have m': "main e w = check_and_save e conf lastTime (report_name e) repositories w1"
              using m c r o None by (simp add: configure_and_check_def)
            show ?thesis
              using check_and_save_cases [where fd = "report_name e" and e = e and c = conf
                  and lastTime = lastTime and repositories = repositories and w = w1,
                  OF report_name_neq]
                p x l c r o None k1
              unfolding m' by auto
          qed
        qed
      qed
    qed
  qed
qed


text \<open>
  Claim C7. A run that does not return, whatever made it panic, leaves the checkpoint file
  as it was. A run that returns has had every call of \<^verbatim>\<open>checkRepository\<close> return without
  an error, and then the checkpoint file holds the formatted value of \<open>start\<close>, the time
  taken when the program started (as much of it as the device took). An error returned by
  a call of \<^verbatim>\<open>checkRepository\<close> makes the run panic with that error before
  \<^verbatim>\<open>writeCheckTime\<close> is reached.
\<close>

theorem checkpoint_saved_after_all_scans:
  "(fst (main e w) \<noteq> Returned \<longrightarrow> nodes (snd (main e w)) checkFileName = nodes w checkFileName) \<and>
   (fst (main e w) = Returned \<longrightarrow>
      (\<exists>w0 lastTime conf repositories w1.
         prepareDir resultDir w = (None, w0) \<and>
         readCheckTime e checkFileName w0 = Inr lastTime \<and>
         parseYamlFile e configFileName w0 = Inr conf \<and>
         retrieveRepositories e conf = Inr repositories \<and>
         OpenFile (report_name e) w0 = (None, w1) \<and>
         fst (check_all e conf lastTime (report_name e)
                (range_map (repos_order e) repositories) w1) = None \<and>
         nodes (snd (main e w)) checkFileName =
           File (take (room (snd (check_all e conf lastTime (report_name e)
                   (range_map (repos_order e) repositories) w1)))
                 (Format_DateFormat (start e))))) \<and>
   (checkFileName \<noteq> fd \<and>
    fst (check_all e c t fd (range_map (repos_order e) rs) w) = Some err \<longrightarrow>
      fst (check_and_save e c t fd rs w) = Panic err \<and>
      nodes (snd (check_and_save e c t fd rs w)) checkFileName = nodes w checkFileName)"
proof -
  have "fst (check_and_save e c t fd rs w) = Panic err \<and>
      nodes (snd (check_and_save e c t fd rs w)) checkFileName = nodes w checkFileName"
    if "checkFileName \<noteq> fd"
      and "fst (check_all e c t fd (range_map (repos_order e) rs) w) = Some err"
    using check_and_save_cases [where fd = fd and e = e and c = c and lastTime = t
        and repositories = rs and w = w, OF that(1)] that(2)
    by auto
  then show ?thesis using main_checkpoint [of e w] by blast
qed

lemma example_runs:
  "(case main example_env saved_world of
      (out, w') \<Rightarrow> out = Returned \<and>
        nodes w' checkFileName = File ''Tue Dec 10 13:07:28 2019 +0800'') \<and>
   fst (main failing_env saved_world) = Panic (Failure ''repository not found'') \<and>
   nodes saved_world checkFileName = File (''Thu Dec 05 13:07:28 2019 +0800'' @ [newline])"
  by code_simp

theorem checkpoint_saved_after_all_scans_witness:
  "fst (main failing_env saved_world) = Panic (Failure ''repository not found'') \<and>
   nodes (snd (main failing_env saved_world)) checkFileName =
     File (''Thu Dec 05 13:07:28 2019 +0800'' @ [newline]) \<and>
   fst (main example_env saved_world) = Returned \<and>
   nodes (snd (main example_env saved_world)) checkFileName =
     File ''Tue Dec 10 13:07:28 2019 +0800''"
  using checkpoint_saved_after_all_scans [of failing_env saved_world]
    checkpoint_saved_after_all_scans [of example_env saved_world] example_runs
  by (auto split: prod.splits)

section \<open>Proofs: the calendar\<close>

lemma daysSinceEpoch_cycles:
  assumes "0 \<le> c" "c \<le> 3" "0 \<le> n4" "n4 \<le> 24" "0 \<le> y1" "y1 \<le> 3"
  shows "daysSinceEpoch (400 * a + 100 * c + 4 * n4 + y1 + 1) =
           146097 * a + 36524 * c + 1461 * n4 + 365 * y1"
proof -
  have e400: "(100 * c + 4 * n4 + y1) div 400 = 0"
    using assms by (intro div_pos_pos_trivial) auto
  have e100: "(4 * n4 + y1) div 100 = 0"
    using assms by (intro div_pos_pos_trivial) auto
  have e4: "y1 div 4 = 0"
    using assms by (intro div_pos_pos_trivial) auto
  have d400: "(400 * a + 100 * c + 4 * n4 + y1) div 400 = a"
    using e400 by (simp add: algebra_simps)
  have d100: "(100 * c + 4 * n4 + y1) div 100 = c"
    using e100 by (simp add: algebra_simps)
  have d4: "(4 * n4 + y1) div 4 = n4"
    using e4 by (simp add: algebra_simps)
  have "daysSinceEpoch (400 * a + 100 * c + 4 * n4 + y1 + 1) =
      (let y = 400 * a + 100 * c + 4 * n4 + y1;
           n400 = y div 400; y = y - 400 * n400;
           d = 146097 * n400;
           n100 = y div 100; y = y - 100 * n100;
           d = d + 36524 * n100;
           n4 = y div 4; y = y - 4 * n4;
           d = d + 1461 * n4
       in d + 365 * y)"
    by (simp add: daysSinceEpoch_def)
  also have "\<dots> = 146097 * a + 36524 * c + 1461 * n4 + 365 * y1"
    unfolding Let_def d400 using d100 d4 by (simp add: add.assoc)
  finally show ?thesis .
qed


lemma isLeap_cycles:
  assumes "0 \<le> c" "c \<le> 3" "0 \<le> n4" "n4 \<le> 24" "0 \<le> y1" "y1 \<le> 3"
  shows "isLeap (400 * a + 100 * c + 4 * n4 + y1 + 1) \<longleftrightarrow> y1 = 3 \<and> (n4 \<noteq> 24 \<or> c = 3)"
proof -
  let ?Y = "400 * a + 100 * c + 4 * n4 + y1 + 1"
  have m4: "?Y mod 4 = (y1 + 1) mod 4"
  proof -
    have "?Y = (y1 + 1) + 4 * (100 * a + 25 * c + n4)" by simp
    then show ?thesis by (simp only: mod_mult_self2)
  qed
  have m100: "?Y mod 100 = (4 * n4 + y1 + 1) mod 100"
  proof -
    have "?Y = (4 * n4 + y1 + 1) + 100 * (4 * a + c)" by simp
    then show ?thesis by (simp only: mod_mult_self2)
  qed
  have m400: "?Y mod 400 = (100 * c + 4 * n4 + y1 + 1) mod 400"
  proof -
    have "?Y = (100 * c + 4 * n4 + y1 + 1) + 400 * a" by simp
    then show ?thesis by (simp only: mod_mult_self2)
  qed
  have y: "y1 = 0 \<or> y1 = 1 \<or> y1 = 2 \<or> y1 = 3" using assms by arith
  have a: "(y1 + 1) mod 4 = 0 \<longleftrightarrow> y1 = 3" using y by auto
  have b: "(4 * n4 + 3 + 1) mod 100 = 0 \<longleftrightarrow> n4 = 24"
  proof
    assume "(4 * n4 + 3 + 1) mod 100 = 0"
    then obtain k where k: "4 * n4 + 3 + 1 = 100 * k" by (auto simp: mod_eq_0_iff_dvd)
    then have "0 < 100 * k \<and> 100 * k \<le> 100 * 1" using assms by linarith
    then have "k = 1" by simp
    then show "n4 = 24" using k by simp
  qed simp
  have c: "(100 * c + 4 * 24 + 3 + 1) mod 400 = 0 \<longleftrightarrow> c = 3"
  proof
    assume "(100 * c + 4 * 24 + 3 + 1) mod 400 = 0"
    then obtain k where k: "100 * c + 4 * 24 + 3 + 1 = 400 * k" by (auto simp: mod_eq_0_iff_dvd)
    then have "0 < 400 * k \<and> 400 * k \<le> 400 * 1" using assms by linarith
    then have "k = 1" by simp
    then show "c = 3" using k by simp
  qed simp
  show ?thesis
    unfolding isLeap_def m4 m100 m400 using a b c by auto
qed


lemma cut_cycle:
  fixes r b :: int
  assumes r: "0 \<le> r" "r \<le> 4 * b" and b: "0 < b"
  defines "n \<equiv> r div b"
  defines "c \<equiv> n - n div 4"
  shows "0 \<le> c \<and> c \<le> 3 \<and> 0 \<le> r - b * c \<and> r - b * c \<le> b \<and> (r - b * c = b \<longrightarrow> c = 3 \<and> r = 4 * b)"
proof -
  have lo: "0 \<le> n" using r b by (simp add: n_def pos_imp_zdiv_nonneg_iff)
  have "n \<le> (4 * b) div b" unfolding n_def using r b by (intro zdiv_mono1) auto
  then have hi: "n \<le> 4" using b by simp
  have dm: "r = b * n + r mod b" by (simp add: n_def)
  have m: "0 \<le> r mod b" "r mod b < b" using b by simp_all
  consider "n = 4" | "0 \<le> n \<and> n \<le> 3" using lo hi by linarith
  then show ?thesis
  proof cases
    case 1
    then have c3: "c = 3" by (simp add: c_def)
    have "r = b * 4 + r mod b" using dm 1 by simp
    then have "r = 4 * b" using r m by linarith
    then show ?thesis using c3 b by simp
  next
    case 2
    then have "n div 4 = 0" by (intro div_pos_pos_trivial) auto
    then have cn: "c = n" by (simp add: c_def)
    have "r - b * c = r mod b" using dm cn by simp
    then show ?thesis using m 2 cn by simp
  qed
qed

lemma absYear_cycles:
  "\<exists>a c n4 y1 yd.
     absYear d = (400 * a + 100 * c + 4 * n4 + y1 + 1, yd) \<and>
     0 \<le> c \<and> c \<le> 3 \<and> 0 \<le> n4 \<and> n4 \<le> 24 \<and> 0 \<le> y1 \<and> y1 \<le> 3 \<and>
     d = 146097 * a + 36524 * c + 1461 * n4 + 365 * y1 + yd \<and>
     0 \<le> yd \<and> yd \<le> 365 \<and> (yd = 365 \<longrightarrow> y1 = 3 \<and> (n4 \<noteq> 24 \<or> c = 3))"
proof -
  define a where "a = d div 146097"
  define r where "r = d - 146097 * a"
  define n1 where "n1 = r div 36524"
  define c where "c = n1 - n1 div 4"
  define r2 where "r2 = r - 36524 * c"
  define n4 where "n4 = r2 div 1461"
  define r3 where "r3 = r2 - 1461 * n4"
  define n where "n = r3 div 365"
  define y1 where "y1 = n - n div 4"
  define yd where "yd = r3 - 365 * y1"
  have run: "absYear d = (400 * a + 100 * c + 4 * n4 + y1 + 1, yd)"
    unfolding absYear_def Let_def a_def r_def n1_def c_def r2_def n4_def r3_def n_def
        y1_def yd_def by (simp only: add.commute prod.inject refl simp_thms)
  have r: "0 \<le> r" "r < 146097"
    by (simp_all add: r_def a_def minus_mult_div_eq_mod)
  have "0 \<le> c \<and> c \<le> 3 \<and> 0 \<le> r - 36524 * c \<and> r - 36524 * c \<le> 36524 \<and>
      (r - 36524 * c = 36524 \<longrightarrow> c = 3 \<and> r = 4 * 36524)"
    unfolding c_def n1_def using r by (intro cut_cycle) auto
  then have c: "0 \<le> c" "c \<le> 3" "0 \<le> r2" "r2 \<le> 36524" "r2 = 36524 \<longrightarrow> c = 3"
    by (simp_all add: r2_def)
  have r3m: "r3 = r2 mod 1461"
    by (simp add: r3_def n4_def minus_mult_div_eq_mod)
  have n4: "0 \<le> n4" "n4 \<le> 24"
  proof -
    show "0 \<le> n4" using c by (simp add: n4_def pos_imp_zdiv_nonneg_iff)
    have "r2 div 1461 \<le> 36524 div 1461" using c by (intro zdiv_mono1) auto
    then show "n4 \<le> 24" by (simp add: n4_def)
  qed
  have r3: "0 \<le> r3" "r3 < 1461" using r3m by simp_all
  have "0 \<le> y1 \<and> y1 \<le> 3 \<and> 0 \<le> r3 - 365 * y1 \<and> r3 - 365 * y1 \<le> 365 \<and>
      (r3 - 365 * y1 = 365 \<longrightarrow> y1 = 3 \<and> r3 = 4 * 365)"
    unfolding y1_def n_def using r3 by (intro cut_cycle) auto
  then have y: "0 \<le> y1" "y1 \<le> 3" "0 \<le> yd" "yd \<le> 365" "yd = 365 \<longrightarrow> y1 = 3 \<and> r3 = 1460"
    by (simp_all add: yd_def)
  have edge: "yd = 365 \<longrightarrow> n4 \<noteq> 24 \<or> c = 3"
  proof (intro impI)
    assume "yd = 365"
    then have "r3 = 1460" using y by simp
    then have "n4 = 24 \<longrightarrow> r2 = 36524" by (simp add: r3_def)
    then show "n4 \<noteq> 24 \<or> c = 3" using c by blast
  qed
  have sum: "d = 146097 * a + 36524 * c + 1461 * n4 + 365 * y1 + yd"
    unfolding yd_def r3_def r2_def r_def by (simp only: algebra_simps)
  have last: "yd = 365 \<longrightarrow> y1 = 3 \<and> (n4 \<noteq> 24 \<or> c = 3)"
    using y edge by blast
  show ?thesis
    by (intro exI conjI) (rule run c n4 y(1-4) last sum)+
qed

lemma absYear_correct:
  assumes "absYear d = (year, yday)"
  shows "daysSinceEpoch year + yday = d \<and> 0 \<le> yday \<and> yday < (if isLeap year then 366 else 365)"
proof -
  obtain a c n4 y1 yd where h:
    "absYear d = (400 * a + 100 * c + 4 * n4 + y1 + 1, yd)"
    "0 \<le> c" "c \<le> 3" "0 \<le> n4" "n4 \<le> 24" "0 \<le> y1" "y1 \<le> 3"
    "d = 146097 * a + 36524 * c + 1461 * n4 + 365 * y1 + yd"
    "0 \<le> yd" "yd \<le> 365" "yd = 365 \<longrightarrow> y1 = 3 \<and> (n4 \<noteq> 24 \<or> c = 3)"
    using absYear_cycles [of d] by blast
  have y: "year = 400 * a + 100 * c + 4 * n4 + y1 + 1" and yd: "yday = yd"
    using assms h(1) by simp_all
  have "daysSinceEpoch year = 146097 * a + 36524 * c + 1461 * n4 + 365 * y1"
    unfolding y using h by (intro daysSinceEpoch_cycles) auto
  moreover have "isLeap year \<longleftrightarrow> y1 = 3 \<and> (n4 \<noteq> 24 \<or> c = 3)"
    unfolding y using h by (intro isLeap_cycles) auto
  ultimately show ?thesis using h yd by auto
qed


lemma month_of_bounds:
  assumes "0 \<le> day" "day < 365" "month_of day = (m, dd)"
  shows "1 \<le> m \<and> m \<le> 12 \<and> 1 \<le> dd \<and>
     daysBefore ! nat (m - 1) + dd - 1 = day \<and> day < daysBefore ! nat m"
proof -
  define k where "k = day div 31"
  have dm: "day = 31 * k + day mod 31" "0 \<le> day mod 31" "day mod 31 < 31"
    by (simp_all add: k_def)
  have "0 \<le> k" using assms by (simp add: k_def pos_imp_zdiv_nonneg_iff)
  moreover have "k \<le> 364 div 31" unfolding k_def using assms by (intro zdiv_mono1) auto
  ultimately have "k \<in> {0, 1, 2, 3, 4, 5, 6, 7, 8, 9, 10, 11}" by (simp, arith)
  then consider "k = 0" | "k = 1" | "k = 2" | "k = 3" | "k = 4" | "k = 5" | "k = 6"
    | "k = 7" | "k = 8" | "k = 9" | "k = 10" | "k = 11" by auto
  then show ?thesis
    using assms dm
    by cases (auto simp: month_of_def Let_def k_def [symmetric] daysBefore_def split: if_splits)
qed

lemma month_cases:
  "1 \<le> m \<Longrightarrow> m \<le> (12::int) \<Longrightarrow>
     m = 1 \<or> m = 2 \<or> m = 3 \<or> m = 4 \<or> m = 5 \<or> m = 6 \<or> m = 7 \<or> m = 8 \<or> m = 9 \<or> m = 10
       \<or> m = 11 \<or> m = 12"
  by arith

text \<open>The days before a month grow with the month, and a month has at most 31 days.\<close>

lemma daysBefore_facts:
  assumes "1 \<le> m" "m \<le> 12"
  shows "daysBefore ! nat m - daysBefore ! nat (m - 1) \<le> 31 \<and>
     (m \<le> 2 \<longrightarrow> daysBefore ! nat m \<le> 59) \<and> (3 \<le> m \<longrightarrow> 59 \<le> daysBefore ! nat (m - 1)) \<and>
     (m = 2 \<longrightarrow> daysBefore ! nat m = 59 \<and> daysBefore ! nat (m - 1) = 31)"
  using month_cases [OF assms] by (elim disjE) (simp_all add: daysBefore_def)

lemma monthDay_correct:
  assumes "0 \<le> yday" "yday < (if isLeap year then 366 else 365)" "monthDay year yday = (m, dd)"
  shows "1 \<le> m \<and> m \<le> 12 \<and> 1 \<le> dd \<and> dd \<le> daysIn m year \<and> dd \<le> 31 \<and>
     daysBefore ! nat (m - 1) + (if isLeap year \<and> 3 \<le> m then 1 else 0) + (dd - 1) = yday"
proof -
  consider (leapday) "isLeap year" "yday = 59" | (after) "isLeap year" "59 < yday"
    | (before) "isLeap year" "yday < 59" | (common) "\<not> isLeap year"
    by linarith
  then show ?thesis
  proof cases
    case leapday
    then show ?thesis using assms by (simp add: monthDay_def daysIn_def daysBefore_def)
  next
    case after
    then have mo: "month_of (yday - 1) = (m, dd)" using assms by (simp add: monthDay_def)
    have b: "1 \<le> m \<and> m \<le> 12 \<and> 1 \<le> dd \<and>
        daysBefore ! nat (m - 1) + dd - 1 = yday - 1 \<and> yday - 1 < daysBefore ! nat m"
      using after assms by (intro month_of_bounds [OF _ _ mo]) auto
    have m1: "1 \<le> m" "m \<le> 12" using b by simp_all
    note f = daysBefore_facts [OF m1]
    have m3: "3 \<le> m" using b f after by linarith
    then have "daysIn m year = daysBefore ! nat m - daysBefore ! nat (m - 1)"
      by (simp add: daysIn_def)
    then show ?thesis using b f m3 after by auto
  next
    case before
    then have mo: "month_of yday = (m, dd)" using assms by (simp add: monthDay_def)
    have b: "1 \<le> m \<and> m \<le> 12 \<and> 1 \<le> dd \<and>
        daysBefore ! nat (m - 1) + dd - 1 = yday \<and> yday < daysBefore ! nat m"
      using before assms by (intro month_of_bounds [OF _ _ mo]) auto
    have m1: "1 \<le> m" "m \<le> 12" using b by simp_all
    note f = daysBefore_facts [OF m1]
    have m2: "m \<le> 2" using b f before by linarith
    have "dd \<le> daysIn m year"
    proof (cases "m = 2")
      case True
      then show ?thesis using b f before by (simp add: daysIn_def)
    next
      case False
      then have "daysIn m year = daysBefore ! nat m - daysBefore ! nat (m - 1)"
        by (simp add: daysIn_def)
      then show ?thesis using b by linarith
    qed
    then show ?thesis using b f m2 before by auto
  next
    case common
    then have mo: "month_of yday = (m, dd)" using assms by (simp add: monthDay_def)
    have b: "1 \<le> m \<and> m \<le> 12 \<and> 1 \<le> dd \<and>
        daysBefore ! nat (m - 1) + dd - 1 = yday \<and> yday < daysBefore ! nat m"
      using common assms by (intro month_of_bounds [OF _ _ mo]) auto
    have m1: "1 \<le> m" "m \<le> 12" using b by simp_all
    note f = daysBefore_facts [OF m1]
    have "daysIn m year = daysBefore ! nat m - daysBefore ! nat (m - 1)"
      using common by (simp add: daysIn_def)
    then show ?thesis using b f common by auto
  qed
qed

text \<open>The date of a day count is a date of the calendar, and it is the date of that day.\<close>

lemma date_roundtrip:
  assumes "absYear d = (year, yday)" "monthDay year yday = (m, dd)"
  shows "1 \<le> m \<and> m \<le> 12 \<and> 1 \<le> dd \<and> dd \<le> daysIn m year \<and> dd \<le> 31 \<and>
     daysSinceEpoch year + daysBefore ! nat (m - 1)
       + (if isLeap year \<and> 3 \<le> m then 1 else 0) + (dd - 1) = d"
proof -
  have a: "daysSinceEpoch year + yday = d \<and> 0 \<le> yday \<and> yday < (if isLeap year then 366 else 365)"
    using assms(1) by (rule absYear_correct)
  then have "1 \<le> m \<and> m \<le> 12 \<and> 1 \<le> dd \<and> dd \<le> daysIn m year \<and> dd \<le> 31 \<and>
     daysBefore ! nat (m - 1) + (if isLeap year \<and> 3 \<le> m then 1 else 0) + (dd - 1) = yday"
    using assms(2) by (intro monthDay_correct) auto
  then show ?thesis using a by auto
qed

text \<open>
  The other way round: the day count of a date of the calendar has that date. A year ends
  365 or 366 days after its beginning, so a day count lies in one year only, and within the
  year in one month only.
\<close>

lemma year_cycles:
  fixes Y :: int
  obtains a c n4 y1 where "Y = 400 * a + 100 * c + 4 * n4 + y1 + 1"
    "0 \<le> c" "c \<le> 3" "0 \<le> n4" "n4 \<le> 24" "0 \<le> y1" "y1 \<le> 3"
proof -
  define z where "z = Y - 1"
  define a where "a = z div 400"
  define r where "r = z mod 400"
  define c where "c = r div 100"
  define r2 where "r2 = r mod 100"
  define n4 where "n4 = r2 div 4"
  define y1 where "y1 = r2 mod 4"
  have r: "0 \<le> r" "r < 400" by (simp_all add: r_def)
  have r2: "0 \<le> r2" "r2 < 100" by (simp_all add: r2_def)
  have c0: "0 \<le> c" using r by (simp add: c_def pos_imp_zdiv_nonneg_iff)
  have "r div 100 \<le> 399 div 100" using r by (intro zdiv_mono1) auto
  then have c3: "c \<le> 3" by (simp add: c_def)
  have n0: "0 \<le> n4" using r2 by (simp add: n4_def pos_imp_zdiv_nonneg_iff)
  have "r2 div 4 \<le> 99 div 4" using r2 by (intro zdiv_mono1) auto
  then have n24: "n4 \<le> 24" by (simp add: n4_def)
  have y: "0 \<le> y1" "y1 \<le> 3" by (simp_all add: y1_def)
  have e1: "z = 400 * a + r" by (simp add: a_def r_def)
  have e2: "r = 100 * c + r2" by (simp add: c_def r2_def)
  have e3: "r2 = 4 * n4 + y1" by (simp add: n4_def y1_def)
  have "Y = 400 * a + 100 * c + 4 * n4 + y1 + 1"
    using e1 e2 e3 by (simp add: z_def)
  then show ?thesis using c0 c3 n0 n24 y by (rule that)
qed

lemma daysSinceEpoch_next:
  "daysSinceEpoch (y + 1) = daysSinceEpoch y + (if isLeap y then 366 else 365)"
proof -
  obtain a c n4 y1 where h: "y = 400 * a + 100 * c + 4 * n4 + y1 + 1"
    "0 \<le> c" "c \<le> 3" "0 \<le> n4" "n4 \<le> 24" "0 \<le> y1" "y1 \<le> 3"
    by (rule year_cycles)
  have d: "daysSinceEpoch y = 146097 * a + 36524 * c + 1461 * n4 + 365 * y1"
    unfolding h(1) using h(2-) by (intro daysSinceEpoch_cycles)
  have l: "isLeap y \<longleftrightarrow> y1 = 3 \<and> (n4 \<noteq> 24 \<or> c = 3)"
    unfolding h(1) using h(2-) by (intro isLeap_cycles)
  consider (plain) "y1 \<le> 2" | (four) "y1 = 3" "n4 \<le> 23" | (cent) "y1 = 3" "n4 = 24" "c \<le> 2"
    | (quad) "y1 = 3" "n4 = 24" "c = 3"
    using h by linarith
  then show ?thesis
  proof cases
    case plain
    have "daysSinceEpoch (400 * a + 100 * c + 4 * n4 + (y1 + 1) + 1) =
        146097 * a + 36524 * c + 1461 * n4 + 365 * (y1 + 1)"
      using h plain by (intro daysSinceEpoch_cycles) auto
    moreover have "y + 1 = 400 * a + 100 * c + 4 * n4 + (y1 + 1) + 1" using h(1) by simp
    ultimately have "daysSinceEpoch (y + 1) = 146097 * a + 36524 * c + 1461 * n4 + 365 * (y1 + 1)"
      by (simp only:)
    then show ?thesis using d l plain by simp
  next
    case four
    have "daysSinceEpoch (400 * a + 100 * c + 4 * (n4 + 1) + 0 + 1) =
        146097 * a + 36524 * c + 1461 * (n4 + 1) + 365 * 0"
      using h four by (intro daysSinceEpoch_cycles) auto
    moreover have "y + 1 = 400 * a + 100 * c + 4 * (n4 + 1) + 0 + 1" using h(1) four by simp
    ultimately have "daysSinceEpoch (y + 1) = 146097 * a + 36524 * c + 1461 * (n4 + 1) + 365 * 0"
      by (simp only:)
    then show ?thesis using d l four by simp
  next
    case cent
    have "daysSinceEpoch (400 * a + 100 * (c + 1) + 4 * 0 + 0 + 1) =
        146097 * a + 36524 * (c + 1) + 1461 * 0 + 365 * 0"
      using h cent by (intro daysSinceEpoch_cycles) auto
    moreover have "y + 1 = 400 * a + 100 * (c + 1) + 4 * 0 + 0 + 1" using h(1) cent by simp
    ultimately have "daysSinceEpoch (y + 1) = 146097 * a + 36524 * (c + 1) + 1461 * 0 + 365 * 0"
      by (simp only:)
    then show ?thesis using d l cent by simp
  next
    case quad
    have "daysSinceEpoch (400 * (a + 1) + 100 * 0 + 4 * 0 + 0 + 1) =
        146097 * (a + 1) + 36524 * 0 + 1461 * 0 + 365 * 0"
      by (intro daysSinceEpoch_cycles) auto
    moreover have "y + 1 = 400 * (a + 1) + 100 * 0 + 4 * 0 + 0 + 1" using h(1) quad by simp
    ultimately have "daysSinceEpoch (y + 1) = 146097 * (a + 1) + 36524 * 0 + 1461 * 0 + 365 * 0"
      by (simp only:)
    then show ?thesis using d l quad by simp
  qed
qed

lemma daysSinceEpoch_later:
  "y < y2 \<Longrightarrow> daysSinceEpoch y + (if isLeap y then 366 else 365) \<le> daysSinceEpoch y2"
proof (induction y2 rule: int_gr_induct)
  case base
  then show ?case by (simp add: daysSinceEpoch_next)
next
  case (step i)
  have "daysSinceEpoch i \<le> daysSinceEpoch (i + 1)" by (simp add: daysSinceEpoch_next)
  then show ?case using step by linarith
qed

lemma year_unique:
  assumes "daysSinceEpoch y + yd = daysSinceEpoch y2 + yd2"
    and "0 \<le> yd" "yd < (if isLeap y then 366 else 365)"
    and "0 \<le> yd2" "yd2 < (if isLeap y2 then 366 else 365)"
  shows "y = y2 \<and> yd = yd2"
proof -
  have "\<not> y < y2" using daysSinceEpoch_later [of y y2] assms by (auto split: if_splits)
  moreover have "\<not> y2 < y" using daysSinceEpoch_later [of y2 y] assms by (auto split: if_splits)
  ultimately have "y = y2" by linarith
  then show ?thesis using assms(1) by simp
qed

lemma absYear_inverse:
  assumes "0 \<le> yd" "yd < (if isLeap y then 366 else 365)"
  shows "absYear (daysSinceEpoch y + yd) = (y, yd)"
proof -
  obtain y2 yd2 where a: "absYear (daysSinceEpoch y + yd) = (y2, yd2)"
    by (cases "absYear (daysSinceEpoch y + yd)")
  have "daysSinceEpoch y2 + yd2 = daysSinceEpoch y + yd \<and> 0 \<le> yd2 \<and>
      yd2 < (if isLeap y2 then 366 else 365)"
    using a by (rule absYear_correct)
  then have "y = y2 \<and> yd = yd2" using assms by (intro year_unique) auto
  then show ?thesis using a by simp
qed

lemma month_end:
  assumes "1 \<le> m" "m \<le> 12"
  shows "daysBefore ! nat (m - 1) + (if isLeap y \<and> 3 \<le> m then 1 else 0) + daysIn m y =
     daysBefore ! nat m + (if isLeap y \<and> 2 \<le> m then 1 else 0) \<and>
     28 \<le> daysIn m y \<and> daysIn m y \<le> 31"
  using month_cases [OF assms] by (elim disjE) (simp_all add: daysBefore_def daysIn_def)

lemma daysBefore_mono: "i \<le> j \<Longrightarrow> j \<le> 12 \<Longrightarrow> daysBefore ! i \<le> daysBefore ! j"
proof -
  assume a: "i \<le> j" "j \<le> 12"
  have "sorted daysBefore" by (simp add: daysBefore_def)
  moreover have "j < length daysBefore" using a by (simp add: daysBefore_def)
  ultimately show ?thesis using a(1) by (simp add: sorted_nth_mono)
qed

lemma month_before:
  assumes "1 \<le> m" "m < m2" "m2 \<le> 12"
  shows "daysBefore ! nat m + (if isLeap y \<and> 2 \<le> m then 1 else 0) \<le>
     daysBefore ! nat (m2 - 1) + (if isLeap y \<and> 3 \<le> m2 then 1 else (0::int))"
proof -
  have "daysBefore ! nat m \<le> daysBefore ! nat (m2 - 1)"
    using assms by (intro daysBefore_mono) auto
  then show ?thesis using assms by auto
qed

lemma yday_bounds:
  assumes "1 \<le> m" "m \<le> 12" "1 \<le> d" "d \<le> daysIn m y"
  shows "0 \<le> daysBefore ! nat (m - 1) + (if isLeap y \<and> 3 \<le> m then 1 else 0) + (d - 1) \<and>
     daysBefore ! nat (m - 1) + (if isLeap y \<and> 3 \<le> m then 1 else 0) + (d - 1)
       < (if isLeap y then 366 else 365)"
proof -
  note e = month_end [OF assms(1,2), of y]
  have "daysBefore ! 0 \<le> daysBefore ! nat (m - 1)"
    using assms by (intro daysBefore_mono) auto
  then have lo: "0 \<le> daysBefore ! nat (m - 1)" by (simp add: daysBefore_def)
  have "daysBefore ! nat m \<le> daysBefore ! 12"
    using assms by (intro daysBefore_mono) auto
  then have hi: "daysBefore ! nat m \<le> 365" by (simp add: daysBefore_def)
  show ?thesis using e lo hi assms(3,4) by (auto split: if_splits)
qed

lemma monthDay_inverse:
  assumes "1 \<le> m" "m \<le> 12" "1 \<le> d" "d \<le> daysIn m y"
  shows "monthDay y (daysBefore ! nat (m - 1) + (if isLeap y \<and> 3 \<le> m then 1 else 0) + (d - 1))
     = (m, d)"
proof -
  define yd where "yd = daysBefore ! nat (m - 1) + (if isLeap y \<and> 3 \<le> m then 1 else 0) + (d - 1)"
  have b: "0 \<le> yd" "yd < (if isLeap y then 366 else 365)"
    using yday_bounds [OF assms] by (simp_all add: yd_def)
  obtain m2 d2 where md: "monthDay y yd = (m2, d2)" by (cases "monthDay y yd")
  have c: "1 \<le> m2 \<and> m2 \<le> 12 \<and> 1 \<le> d2 \<and> d2 \<le> daysIn m2 y \<and> d2 \<le> 31 \<and>
     daysBefore ! nat (m2 - 1) + (if isLeap y \<and> 3 \<le> m2 then 1 else 0) + (d2 - 1) = yd"
    using b md by (rule monthDay_correct)
  note e = month_end [OF assms(1,2), of y]
  have e2: "daysBefore ! nat (m2 - 1) + (if isLeap y \<and> 3 \<le> m2 then 1 else 0) + daysIn m2 y =
     daysBefore ! nat m2 + (if isLeap y \<and> 2 \<le> m2 then 1 else 0)"
    using c month_end [of m2 y] by simp
  have "\<not> m < m2"
  proof
    assume "m < m2"
    then have "daysBefore ! nat m + (if isLeap y \<and> 2 \<le> m then 1 else 0) \<le>
       daysBefore ! nat (m2 - 1) + (if isLeap y \<and> 3 \<le> m2 then 1 else (0::int))"
      using assms(1) c by (intro month_before) auto
    then show False using e c assms(3,4) unfolding yd_def by linarith
  qed
  moreover have "\<not> m2 < m"
  proof
    assume "m2 < m"
    then have "daysBefore ! nat m2 + (if isLeap y \<and> 2 \<le> m2 then 1 else 0) \<le>
       daysBefore ! nat (m - 1) + (if isLeap y \<and> 3 \<le> m then 1 else (0::int))"
      using assms(2) c by (intro month_before) auto
    then show False using e2 c assms(3,4) unfolding yd_def by linarith
  qed
  ultimately have "m = m2" by linarith
  then have "d = d2" using c unfolding yd_def by simp
  then show ?thesis using md \<open>m = m2\<close> by (simp add: yd_def)
qed

lemma date_of_inverse:
  assumes "1 \<le> m" "m \<le> 12" "1 \<le> d" "d \<le> daysIn m y"
    and "abs_sec t div 86400 =
      daysSinceEpoch y + daysBefore ! nat (m - 1) + (if isLeap y \<and> 3 \<le> m then 1 else 0) + (d - 1)"
  shows "date_of t = (y, m, d)"
proof -
  define yd where "yd = daysBefore ! nat (m - 1) + (if isLeap y \<and> 3 \<le> m then 1 else 0) + (d - 1)"
  have b: "0 \<le> yd" "yd < (if isLeap y then 366 else 365)"
    using yday_bounds [OF assms(1-4)] by (simp_all add: yd_def)
  have a: "abs_sec t div 86400 = daysSinceEpoch y + yd"
    using assms(5) by (simp add: yd_def)
  have ay: "absYear (abs_sec t div 86400) = (y, yd)"
    unfolding a using b by (rule absYear_inverse)
  have md: "monthDay y yd = (m, d)"
    unfolding yd_def using assms(1-4) by (rule monthDay_inverse)
  show ?thesis by (simp add: date_of_def ay md)
qed

text \<open>A day past the end of a month is a day of the next month.\<close>

lemma date_of_overflow:
  assumes "1 \<le> m" "m \<le> 12" "daysIn m y < d" "d \<le> 31"
    and "abs_sec t div 86400 =
      daysSinceEpoch y + daysBefore ! nat (m - 1) + (if isLeap y \<and> 3 \<le> m then 1 else 0) + (d - 1)"
  shows "date_of t = (y, m + 1, d - daysIn m y)"
proof -
  define A where "A = daysBefore ! nat (m - 1) + (if isLeap y \<and> 3 \<le> m then 1 else 0)"
  define B where "B = daysBefore ! nat (m + 1 - 1) + (if isLeap y \<and> 3 \<le> m + 1 then 1 else 0)"
  have AB: "A + daysIn m y = B"
    unfolding A_def B_def using month_end [OF assms(1,2), of y] by simp
  have lo: "28 \<le> daysIn m y" using month_end [OF assms(1,2), of y] by blast
  have "m \<noteq> 12"
  proof
    assume "m = 12"
    then have "daysIn m y = 31" by (simp add: daysIn_def daysBefore_def)
    then show False using assms(3,4) by simp
  qed
  then have n: "1 \<le> m + 1" "m + 1 \<le> 12" using assms(1,2) by simp_all
  have lo': "28 \<le> daysIn (m + 1) y" using month_end [OF n, of y] by blast
  have d: "1 \<le> d - daysIn m y" "d - daysIn m y \<le> daysIn (m + 1) y"
    using lo lo' assms(3,4) by linarith+
  have "abs_sec t div 86400 = daysSinceEpoch y + A + (d - 1)"
    using assms(5) by (simp add: A_def)
  then have "abs_sec t div 86400 = daysSinceEpoch y + B + (d - daysIn m y - 1)"
    using AB by linarith
  then have "abs_sec t div 86400 =
      daysSinceEpoch y + daysBefore ! nat (m + 1 - 1) + (if isLeap y \<and> 3 \<le> m + 1 then 1 else 0)
        + (d - daysIn m y - 1)"
    unfolding B_def by (simp only: add.assoc)
  then show ?thesis by (rule date_of_inverse [OF n d])
qed

section \<open>Proofs: printing a time and reading it back\<close>

declare digits.simps [simp del]

lemma below_ten:
  "(k::nat) < 10 \<Longrightarrow> k = 0 \<or> k = 1 \<or> k = 2 \<or> k = 3 \<or> k = 4 \<or> k = 5 \<or> k = 6 \<or> k = 7 \<or> k = 8 \<or> k = 9"
  by arith

lemma digit_char_props:
  "is_digit (digit_char n) \<and> digit_val (digit_char n) = n mod 10 \<and>
   digit_char n \<noteq> CHR '' '' \<and> digit_char n \<noteq> CHR ''-'' \<and> digit_char n \<noteq> CHR ''+''"
proof -
  have "n mod 10 < 10" by simp
  from below_ten [OF this] show ?thesis
    by (elim disjE) (simp_all add: digit_char_def is_digit_def digit_val_def)
qed

lemma digit_char_mod: "digit_char (n mod 10) = digit_char n"
  by (simp add: digit_char_def)

lemma digits_small: "n < 10 \<Longrightarrow> digits n = [digit_char n]"
  by (simp add: digits.simps [of n])

lemma digits_two: "10 \<le> n \<Longrightarrow> n < 100 \<Longrightarrow> digits n = [digit_char (n div 10), digit_char n]"
  by (simp add: digits.simps [of n] digits_small digit_char_mod)

lemma digits_three:
  "100 \<le> n \<Longrightarrow> n < 1000 \<Longrightarrow> digits n = [digit_char (n div 100), digit_char (n div 10), digit_char n]"
  by (simp add: digits.simps [of n] digits_two digit_char_mod div_mult2_eq [symmetric])

lemma digits_four:
  "1000 \<le> n \<Longrightarrow> n < 10000 \<Longrightarrow>
     digits n = [digit_char (n div 1000), digit_char (n div 100), digit_char (n div 10), digit_char n]"
  by (simp add: digits.simps [of n] digits_three digit_char_mod div_mult2_eq [symmetric])

lemma replicate_small:
  "replicate (Suc 0) c = [c]" "replicate 2 c = [c, c]" "replicate 3 c = [c, c, c]"
  by (simp_all add: numeral_2_eq_2 numeral_3_eq_3)

lemma appendInt_two:
  assumes "0 \<le> x" "x < 100"
  shows "appendInt x 2 = [digit_char (nat x div 10), digit_char (nat x)]"
proof (cases "nat x < 10")
  case True
  then show ?thesis using assms by (simp add: appendInt_def digits_small digit_char_def)
next
  case False
  then show ?thesis using assms by (simp add: appendInt_def digits_two)
qed

lemma appendInt_four:
  assumes "0 \<le> x" "x < 10000"
  shows "appendInt x 4 =
     [digit_char (nat x div 1000), digit_char (nat x div 100), digit_char (nat x div 10),
      digit_char (nat x)]"
proof -
  consider "nat x < 10" | "10 \<le> nat x" "nat x < 100" | "100 \<le> nat x" "nat x < 1000"
    | "1000 \<le> nat x" "nat x < 10000"
    using assms by linarith
  then show ?thesis
  proof cases
    case 1
    then show ?thesis using assms
      by (simp add: appendInt_def digits_small digit_char_def replicate_small)
  next
    case 2
    then show ?thesis using assms
      by (simp add: appendInt_def digits_two digit_char_def replicate_small)
  next
    case 3
    then show ?thesis using assms
      by (simp add: appendInt_def digits_three digit_char_def replicate_small)
  next
    case 4
    then show ?thesis using assms by (simp add: appendInt_def digits_four)
  qed
qed

lemma getnum_digits:
  "getnum (digit_char a # digit_char b # rest) fixed =
     Some (int (a mod 10) * 10 + int (b mod 10), rest)"
  by (simp add: digit_char_props)

lemma getnum_appendInt:
  assumes "0 \<le> x" "x < 100"
  shows "getnum (appendInt x 2 @ rest) fixed = Some (x, rest)"
proof -
  have v: "int (nat x div 10 mod 10) * 10 + int (nat x mod 10) = x"
    using assms by (simp add: zmod_int zdiv_int)
  have "appendInt x 2 @ rest = digit_char (nat x div 10) # digit_char (nat x) # rest"
    using assms by (simp add: appendInt_two)
  then show ?thesis by (simp only: getnum_digits v)
qed

lemma appendInt_two_hd: "0 \<le> x \<Longrightarrow> x < 100 \<Longrightarrow> hd (appendInt x 2 @ rest) \<noteq> CHR '' ''"
  by (simp add: appendInt_two digit_char_props)

text \<open>Names of days and months.\<close>

lemma below_seven:
  "(i::nat) < 7 \<Longrightarrow> i = 0 \<or> i = 1 \<or> i = 2 \<or> i = 3 \<or> i = 4 \<or> i = 5 \<or> i = 6"
  by arith

lemma below_twelve:
  "(i::nat) < 12 \<Longrightarrow> i = 0 \<or> i = 1 \<or> i = 2 \<or> i = 3 \<or> i = 4 \<or> i = 5 \<or> i = 6 \<or> i = 7 \<or> i = 8
     \<or> i = 9 \<or> i = 10 \<or> i = 11"
  by arith

lemma lookup_day:
  "i < 7 \<Longrightarrow> lookup shortDayNames (shortDayNames ! i @ rest) = Some (i, rest)"
  by (drule below_seven, elim disjE)
    (simp_all add: lookup_def shortDayNames_def lower_def)

lemma lookup_month:
  "i < 12 \<Longrightarrow> lookup shortMonthNames (shortMonthNames ! i @ rest) = Some (i, rest)"
  by (drule below_twelve, elim disjE)
    (simp_all add: lookup_def shortMonthNames_def lower_def)

lemma month_name_hd: "i < 12 \<Longrightarrow> hd (shortMonthNames ! i @ rest) \<noteq> CHR '' ''"
  by (drule below_twelve, elim disjE) (simp_all add: shortMonthNames_def)

lemma skip_space:
  "v \<noteq> [] \<Longrightarrow> hd v \<noteq> CHR '' '' \<Longrightarrow> skip (CHR '' '' # v) '' '' = Some v"
  by (cases v) (simp_all add: cutspace_def)

lemma skip_colon: "skip (CHR '':'' # v) '':'' = Some v"
  by simp


lemma month_name_ne: "i < 12 \<Longrightarrow> shortMonthNames ! i @ rest \<noteq> []"
  by (drule below_twelve, elim disjE) (simp_all add: shortMonthNames_def)

lemma appendInt_two_ne: "0 \<le> x \<Longrightarrow> x < 100 \<Longrightarrow> appendInt x 2 @ rest \<noteq> []"
  by (simp add: appendInt_two)

lemma element_Some: "element (Some a) k = k a"
  by (simp add: element_def)

lemma in_range_True: "ok \<Longrightarrow> in_range ok what k = k"
  by (simp add: in_range_def)

lemma parse_date_formatted:
  assumes "wd < 7" "mi < 12" "0 \<le> day" "day < 100"
  shows "parse_date (shortDayNames ! wd @ CHR '' '' # shortMonthNames ! mi @ CHR '' '' #
           appendInt day 2 @ rest) = Inr ((int mi + 1, day), rest)"
proof -
  let ?d = "appendInt day 2 @ rest"
  let ?m = "shortMonthNames ! mi @ CHR '' '' # ?d"
  have 1: "lookup shortDayNames (shortDayNames ! wd @ CHR '' '' # ?m) = Some (wd, CHR '' '' # ?m)"
    using assms(1) by (rule lookup_day)
  have 2: "skip (CHR '' '' # ?m) '' '' = Some ?m"
    using assms(2) by (intro skip_space month_name_ne month_name_hd)
  have 3: "lookup shortMonthNames ?m = Some (mi, CHR '' '' # ?d)"
    using assms(2) by (rule lookup_month)
  have 4: "skip (CHR '' '' # ?d) '' '' = Some ?d"
    using assms(3,4) by (intro skip_space appendInt_two_ne appendInt_two_hd)
  have 5: "getnum ?d True = Some (day, rest)"
    using assms(3,4) by (rule getnum_appendInt)
  show ?thesis
    unfolding parse_date_def by (simp only: 1 2 3 4 5 element_Some prod.case)
qed

lemma fraction_space: "fraction (CHR '' '' # rest) = (0, CHR '' '' # rest)"
  by (simp add: fraction_def split: list.splits)

lemma parse_clock_formatted:
  assumes "0 \<le> h" "h < 24" "0 \<le> m" "m < 60" "0 \<le> s" "s < 60"
  shows "parse_clock (CHR '' '' # appendInt h 2 @ CHR '':'' # appendInt m 2 @ CHR '':'' #
           appendInt s 2 @ CHR '' '' # rest) = Inr ((h, m, s, 0), CHR '' '' # rest)"
proof -
  let ?s = "appendInt s 2 @ CHR '' '' # rest"
  let ?m = "appendInt m 2 @ CHR '':'' # ?s"
  let ?h = "appendInt h 2 @ CHR '':'' # ?m"
  have 1: "skip (CHR '' '' # ?h) '' '' = Some ?h"
    using assms by (intro skip_space appendInt_two_ne appendInt_two_hd) auto
  have 2: "getnum ?h False = Some (h, CHR '':'' # ?m)"
    using assms by (intro getnum_appendInt) auto
  have 3: "getnum ?m True = Some (m, CHR '':'' # ?s)"
    using assms by (intro getnum_appendInt) auto
  have 4: "getnum ?s True = Some (s, CHR '' '' # rest)"
    using assms by (intro getnum_appendInt) auto
  show ?thesis
    unfolding parse_clock_def
    by (simp only: 1 2 3 4 element_Some prod.case skip_colon in_range_True assms fraction_space)
qed

lemma four_digit_value:
  fixes n :: nat
  assumes "n < 10000"
  shows "((n div 1000 mod 10 * 10 + n div 100 mod 10) * 10 + n div 10 mod 10) * 10 + n mod 10 = n"
proof -
  have a: "n div 100 = n div 10 div 10" "n div 1000 = n div 10 div 10 div 10"
    by (simp_all add: div_mult2_eq [symmetric])
  have b: "n div 10 div 10 div 10 mod 10 = n div 10 div 10 div 10"
    using assms by (simp add: div_mult2_eq [symmetric])
  show ?thesis unfolding a b by (simp add: div_mult_mod_eq)
qed

lemma parse_year_formatted:
  assumes "0 \<le> y" "y < 10000"
  shows "parse_year (appendInt y 4 @ rest) = Some (y, rest)"
proof -
  let ?n = "nat y"
  let ?ds = "[digit_char (?n div 1000), digit_char (?n div 100), digit_char (?n div 10), digit_char ?n]"
  have f: "appendInt y 4 = ?ds" using assms by (rule appendInt_four)
  have l: "leadingInt 0 ?ds =
      (((?n div 1000 mod 10 * 10 + ?n div 100 mod 10) * 10 + ?n div 10 mod 10) * 10 + ?n mod 10, [])"
    by (simp add: digit_char_props)
  have v: "((?n div 1000 mod 10 * 10 + ?n div 100 mod 10) * 10 + ?n div 10 mod 10) * 10 + ?n mod 10 = ?n"
    using assms by (intro four_digit_value) auto
  have l': "leadingInt 0 ?ds = (?n, [])"
    unfolding l v ..
  have "atoi ?ds = Some y"
    unfolding atoi_def using assms by (simp add: l' digit_char_props del: leadingInt.simps)
  then show ?thesis
    by (simp add: parse_year_def f digit_char_props)
qed

lemma appendInt_four_shape:
  "0 \<le> y \<Longrightarrow> y < 10000 \<Longrightarrow> appendInt y 4 @ rest \<noteq> [] \<and> hd (appendInt y 4 @ rest) \<noteq> CHR '' ''"
  by (simp add: appendInt_four digit_char_props)

lemma parse_zone_formatted:
  assumes "off mod 60 = 0" "\<bar>off\<bar> < 90000"
  shows "parse_zone (zone_text off) = Inr (off, [])"
proof -
  define z where "z = \<bar>off\<bar> div 60"
  have z: "0 \<le> z" "z * 60 = \<bar>off\<bar>"
    using assms(1) by (auto simp: z_def)
  have hr: "0 \<le> z div 60" "z div 60 \<le> 24"
    using z assms(2) by (simp_all add: pos_imp_zdiv_nonneg_iff)
  have mm: "0 \<le> z mod 60" "z mod 60 < 60" by simp_all
  let ?h = "appendInt (z div 60) 2" and ?m = "appendInt (z mod 60) 2"
  let ?sg = "if off < 0 \<and> 0 < z then CHR ''-'' else CHR ''+''"
  have hs: "?h = [digit_char (nat (z div 60) div 10), digit_char (nat (z div 60))]"
    using hr by (intro appendInt_two) auto
  have ms: "?m = [digit_char (nat (z mod 60) div 10), digit_char (nat (z mod 60))]"
    using mm by (intro appendInt_two) auto
  have zt: "zone_text off = ?sg # ?h @ ?m"
    by (simp add: zone_text_def z_def Let_def)
  have gh: "getnum (take 2 (drop 1 (zone_text off))) True = Some (z div 60, [])"
  proof -
    have "take 2 (drop 1 (zone_text off)) = ?h @ []" unfolding zt hs ms by simp
    then show ?thesis using getnum_appendInt [of "z div 60" "[]" True] hr by simp
  qed
  have gm: "getnum (take 2 (drop 3 (zone_text off))) True = Some (z mod 60, [])"
  proof -
    have "take 2 (drop 3 (zone_text off)) = ?m @ []" unfolding zt hs ms by simp
    then show ?thesis using getnum_appendInt [of "z mod 60" "[]" True] mm by simp
  qed
  have len: "\<not> length (zone_text off) < 5" "drop 5 (zone_text off) = []" "hd (zone_text off) = ?sg"
    unfolding zt hs ms by simp_all
  have val: "(z div 60 * 60 + z mod 60) * 60 = \<bar>off\<bar>"
    using z by simp
  have neg: "off < 0 \<Longrightarrow> 0 < z" using z by linarith
  show ?thesis
  proof -
    have nm: "\<not> 60 < z mod 60"
      using pos_mod_bound [of 60 z] by linarith
    show ?thesis
      unfolding parse_zone_def gh gm using hr neg z(2)
      by (auto simp: len val nm)
  qed
qed

lemma zone_text_shape: "zone_text off \<noteq> [] \<and> hd (zone_text off) \<noteq> CHR '' ''"
  by (simp add: zone_text_def Let_def)

lemma parse_year_zone_formatted:
  assumes "0 \<le> y" "y < 10000" "off mod 60 = 0" "\<bar>off\<bar> < 90000"
  shows "parse_year_zone (CHR '' '' # appendInt y 4 @ CHR '' '' # zone_text off) = Inr ((y, off), [])"
proof -
  let ?z = "zone_text off"
  let ?y = "appendInt y 4 @ CHR '' '' # ?z"
  have 1: "skip (CHR '' '' # ?y) '' '' = Some ?y"
    using appendInt_four_shape [OF assms(1,2)] by (intro skip_space) auto
  have 2: "parse_year ?y = Some (y, CHR '' '' # ?z)"
    using assms(1,2) by (rule parse_year_formatted)
  have 3: "skip (CHR '' '' # ?z) '' '' = Some ?z"
    using zone_text_shape by (intro skip_space) auto
  have 4: "parse_zone ?z = Inr (off, [])"
    using assms(3,4) by (rule parse_zone_formatted)
  show ?thesis
    unfolding parse_year_zone_def by (simp only: 1 2 3 4 element_Some prod.case sum.case)
qed

lemma names_len:
  "\<forall>i < 7. length (shortDayNames ! i) = 3" "\<forall>i < 12. length (shortMonthNames ! i) = 3"
  by (auto simp: shortDayNames_def shortMonthNames_def dest!: below_seven below_twelve)

lemma clock_bounds:
  fixes s :: int
  assumes "0 \<le> s" "s < 86400"
  shows "0 \<le> s div 3600 \<and> s div 3600 < 24 \<and> 0 \<le> s mod 3600 div 60 \<and> s mod 3600 div 60 < 60 \<and>
     0 \<le> s mod 60 \<and> s mod 60 < 60 \<and> s div 3600 * 3600 + s mod 3600 div 60 * 60 + s mod 60 = s"
proof -
  have h: "0 \<le> s div 3600" using assms by (simp add: pos_imp_zdiv_nonneg_iff)
  have "s div 3600 \<le> 86399 div 3600" using assms by (intro zdiv_mono1) auto
  then have h2: "s div 3600 < 24" by simp
  have r: "0 \<le> s mod 3600" "s mod 3600 < 3600" by simp_all
  have m: "0 \<le> s mod 3600 div 60" using r by (simp add: pos_imp_zdiv_nonneg_iff)
  have "s mod 3600 div 60 \<le> 3599 div 60" using r by (intro zdiv_mono1) auto
  then have m2: "s mod 3600 div 60 < 60" by simp
  have "s mod 3600 mod 60 = s mod 60"
    by (simp add: mod_mod_cancel)
  then have "s mod 3600 div 60 * 60 + s mod 60 = s mod 3600"
    by (metis div_mult_mod_eq)
  then have "s div 3600 * 3600 + s mod 3600 div 60 * 60 + s mod 60 = s"
    using div_mult_mod_eq [of s 3600] by linarith
  then show ?thesis using h h2 m m2 by simp
qed

text \<open>
  What \<open>Format_DateFormat\<close> prints, field by field, and that \<open>Date\<close> applied to these
  fields gives the time back, cut to whole seconds.
\<close>

lemma Format_fields:
  obtains wd mi year month day hour minute sec where
    "wd < 7" "mi < 12" "int mi + 1 = month" "1 \<le> day" "day \<le> daysIn month year" "day \<le> 31"
    "0 \<le> hour" "hour < 24" "0 \<le> minute" "minute < 60" "0 \<le> sec" "sec < 60"
    "date_of t = (year, month, day)"
    "Format_DateFormat t =
       shortDayNames ! wd @ CHR '' '' # shortMonthNames ! mi @ CHR '' '' # appendInt day 2 @
       CHR '' '' # appendInt hour 2 @ CHR '':'' # appendInt minute 2 @ CHR '':'' #
       appendInt sec 2 @ CHR '' '' # appendInt year 4 @ CHR '' '' # zone_text (zone t)"
    "Date year month day hour minute sec 0 (zone t) = whole_seconds t"
proof -
  define days where "days = abs_sec t div 86400"
  define s where "s = abs_sec t mod 86400"
  obtain year yday where ay: "absYear days = (year, yday)" by (cases "absYear days")
  obtain month day where md: "monthDay year yday = (month, day)" by (cases "monthDay year yday")
  define hour where "hour = s div 3600"
  define minute where "minute = s mod 3600 div 60"
  define sec where "sec = s mod 60"
  define wd where "wd = nat ((days + 1) mod 7)"
  define mi where "mi = nat (month - 1)"
  have dt: "date_of t = (year, month, day)"
    by (simp add: date_of_def days_def [symmetric] ay md)
  have ck: "clock_of t = (hour, minute, sec)"
    by (simp add: clock_of_def s_def [symmetric] hour_def minute_def sec_def Let_def)
  note rt = date_roundtrip [OF ay md]
  have cb: "0 \<le> hour \<and> hour < 24 \<and> 0 \<le> minute \<and> minute < 60 \<and> 0 \<le> sec \<and> sec < 60 \<and>
      hour * 3600 + minute * 60 + sec = s"
    unfolding hour_def minute_def sec_def by (rule clock_bounds) (simp_all add: s_def)
  have wd: "wd < 7" by (simp add: wd_def)
  have mb: "1 \<le> month" "month \<le> 12" "1 \<le> day" "day \<le> daysIn month year" "day \<le> 31"
    using rt by blast+
  have mi: "mi < 12" "int mi + 1 = month" using mb by (simp_all add: mi_def)
  have f: "Format_DateFormat t =
       shortDayNames ! wd @ CHR '' '' # shortMonthNames ! mi @ CHR '' '' # appendInt day 2 @
       CHR '' '' # appendInt hour 2 @ CHR '':'' # appendInt minute 2 @ CHR '':'' #
       appendInt sec 2 @ CHR '' '' # appendInt year 4 @ CHR '' '' # zone_text (zone t)"
    by (simp add: Format_DateFormat_def dt ck weekday_of_def days_def [symmetric] wd_def mi_def)
  have m: "(month - 1) div 12 = 0" "(month - 1) mod 12 = month - 1"
    using mb by simp_all
  have ab: "days * 86400 + s = abs_sec t"
    by (simp add: days_def s_def)
  have dd: "daysSinceEpoch year + daysBefore ! nat (month - 1)
      + (if isLeap year \<and> 3 \<le> month - 1 + 1 then 1 else 0) + (day - 1) = days"
    using rt by simp
  have "Date year month day hour minute sec 0 (zone t) =
      \<lparr>unixNano = (days * 86400 + hour * 3600 + minute * 60 + sec - 719162 * 86400 - zone t)
         * 1000000000 + 0, zone = zone t\<rparr>"
    unfolding Date_def Let_def m add_0_right dd ..
  moreover have "days * 86400 + hour * 3600 + minute * 60 + sec = abs_sec t"
    using cb ab by linarith
  ultimately have "Date year month day hour minute sec 0 (zone t) =
      \<lparr>unixNano = (abs_sec t - 719162 * 86400 - zone t) * 1000000000 + 0, zone = zone t\<rparr>"
    by (simp only:)
  then have "Date year month day hour minute sec 0 (zone t) = whole_seconds t"
    by (simp add: whole_seconds_def abs_sec_def)
  then show ?thesis using that [OF wd mi mb(3,4,5) _ _ _ _ _ _ dt f] cb by blast
qed

lemma Parse_Format:
  assumes "fits_layout t"
  shows "Parse_DateFormat (Format_DateFormat t) = Inr (whole_seconds t)"
proof -
  obtain wd mi year month day hour minute sec where
    wd: "wd < 7" and mi: "mi < 12" "int mi + 1 = month"
    and day: "1 \<le> day" "day \<le> daysIn month year" "day \<le> 31"
    and cb: "0 \<le> hour" "hour < 24" "0 \<le> minute" "minute < 60" "0 \<le> sec" "sec < 60"
    and dt: "date_of t = (year, month, day)"
    and f: "Format_DateFormat t =
       shortDayNames ! wd @ CHR '' '' # shortMonthNames ! mi @ CHR '' '' # appendInt day 2 @
       CHR '' '' # appendInt hour 2 @ CHR '':'' # appendInt minute 2 @ CHR '':'' #
       appendInt sec 2 @ CHR '' '' # appendInt year 4 @ CHR '' '' # zone_text (zone t)"
    and date: "Date year month day hour minute sec 0 (zone t) = whole_seconds t"
    by (rule Format_fields)
  have y: "0 \<le> year" "year < 10000" and z: "zone t mod 60 = 0" "\<bar>zone t\<bar> < 90000"
    using assms by (simp_all add: fits_layout_def dt)
  have d: "0 \<le> day" "day < 100" using day by simp_all
  let ?yz = "CHR '' '' # appendInt year 4 @ CHR '' '' # zone_text (zone t)"
  let ?c = "CHR '' '' # appendInt hour 2 @ CHR '':'' # appendInt minute 2 @ CHR '':'' #
      appendInt sec 2 @ ?yz"
  have p1: "parse_date (Format_DateFormat t) = Inr ((month, day), ?c)"
    unfolding f using parse_date_formatted [OF wd mi(1) d, of ?c] mi(2) by simp
  have p2: "parse_clock ?c = Inr ((hour, minute, sec, 0), ?yz)"
    using cb by (intro parse_clock_formatted)
  have p3: "parse_year_zone ?yz = Inr ((year, zone t), [])"
    using y z by (intro parse_year_zone_formatted)
  have pe: "parse_elements (Format_DateFormat t) =
      Inr (\<lparr>f_year = year, f_month = month, f_day = day, f_hour = hour, f_min = minute,
            f_sec = sec, f_nsec = 0, f_zone = zone t\<rparr>, [])"
    unfolding parse_elements_def p1 by (simp add: p2 p3)
  show ?thesis
    using day date by (simp add: Parse_DateFormat_def pe)
qed

lemma name_lengths:
  "wd < 7 \<Longrightarrow> length (shortDayNames ! wd) = 3" "mi < 12 \<Longrightarrow> length (shortMonthNames ! mi) = 3"
  using names_len by simp_all

lemma Format_length:
  assumes "fits_layout t"
  shows "length (Format_DateFormat t) = 30"
proof -
  obtain wd mi year month day hour minute sec where
    wd: "wd < 7" and mi: "mi < 12" "int mi + 1 = month"
    and day: "1 \<le> day" "day \<le> daysIn month year" "day \<le> 31"
    and cb: "0 \<le> hour" "hour < 24" "0 \<le> minute" "minute < 60" "0 \<le> sec" "sec < 60"
    and dt: "date_of t = (year, month, day)"
    and f: "Format_DateFormat t =
       shortDayNames ! wd @ CHR '' '' # shortMonthNames ! mi @ CHR '' '' # appendInt day 2 @
       CHR '' '' # appendInt hour 2 @ CHR '':'' # appendInt minute 2 @ CHR '':'' #
       appendInt sec 2 @ CHR '' '' # appendInt year 4 @ CHR '' '' # zone_text (zone t)"
    by (rule Format_fields)
  have y: "0 \<le> year" "year < 10000" and z: "\<bar>zone t\<bar> < 90000"
    using assms by (simp_all add: fits_layout_def dt)
  have l2: "length (appendInt day 2) = 2" "length (appendInt hour 2) = 2"
    "length (appendInt minute 2) = 2" "length (appendInt sec 2) = 2"
    using day cb by (simp_all add: appendInt_two)
  have l4: "length (appendInt year 4) = 4" using y by (simp add: appendInt_four)
  have "0 \<le> \<bar>zone t\<bar> div 60 div 60" "\<bar>zone t\<bar> div 60 div 60 < 100"
    using z by (simp_all add: pos_imp_zdiv_nonneg_iff)
  then have lz: "length (zone_text (zone t)) = 5"
    by (simp add: zone_text_def Let_def appendInt_two)
  show ?thesis
    unfolding f using wd mi by (simp add: l2 l4 lz name_lengths)
qed

section \<open>Proofs: text after a time\<close>

text \<open>Reading on: a value that parses still parses, with the same fields, when text is added.\<close>

lemma lookup_from_short:
  "\<forall>n \<in> set tab. length v < length n \<Longrightarrow> lookup_from i tab v = None"
  by (induction tab arbitrary: i) auto

lemma lookup_from_append:
  assumes "\<forall>n \<in> set tab. length n = k" "lookup_from i tab v = Some (j, v')"
  shows "lookup_from i tab (v @ x) = Some (j, v' @ x)"
proof -
  have k: "k \<le> length v"
  proof (rule ccontr)
    assume "\<not> k \<le> length v"
    then have "\<forall>n \<in> set tab. length v < length n" using assms(1) by auto
    then have "lookup_from i tab v = None" by (rule lookup_from_short)
    then show False using assms(2) by simp
  qed
  show ?thesis
    using assms
  proof (induction tab arbitrary: i)
    case Nil
    then show ?case by simp
  next
    case (Cons n tab)
    have n: "length n \<le> length v" using Cons.prems(1) k by simp
    show ?case
    proof (cases "match (take (length n) v) n")
      case True
      then show ?thesis using Cons.prems n by simp
    next
      case False
      then have "lookup_from (Suc i) tab v = Some (j, v')" using Cons.prems n by simp
      then have "lookup_from (Suc i) tab (v @ x) = Some (j, v' @ x)"
        using Cons.prems(1) by (intro Cons.IH) auto
      then show ?thesis using False n by simp
    qed
  qed
qed

lemma names_length:
  "\<forall>n \<in> set shortDayNames. length n = 3" "\<forall>n \<in> set shortMonthNames. length n = 3"
  by (simp_all add: shortDayNames_def shortMonthNames_def)

lemma lookup_append:
  "lookup shortDayNames v = Some (j, v') \<Longrightarrow> lookup shortDayNames (v @ x) = Some (j, v' @ x)"
  "lookup shortMonthNames v = Some (j, v') \<Longrightarrow> lookup shortMonthNames (v @ x) = Some (j, v' @ x)"
  unfolding lookup_def by (erule lookup_from_append [OF names_length(1)],
      erule lookup_from_append [OF names_length(2)])

lemma lookup_Nil: "lookup shortMonthNames [] = None"
  by (simp add: lookup_def shortMonthNames_def)

lemma skip_space_eq:
  "skip v '' '' = (if v \<noteq> [] \<and> hd v \<noteq> CHR '' '' then None else Some (cutspace v))"
  by (simp add: cutspace_def)

lemma skip_colon_eq:
  "skip v '':'' = (case v of [] \<Rightarrow> None | c # cs \<Rightarrow> if c = CHR '':'' then Some cs else None)"
  by (simp split: list.splits)

lemma skip_space_append:
  assumes "skip v '' '' = Some v'" "v' \<noteq> []"
  shows "skip (v @ x) '' '' = Some (v' @ x)"
proof -
  have v': "v' = dropWhile (\<lambda>c. c = CHR '' '') v" and h: "v = [] \<or> hd v = CHR '' ''"
    using assms(1) by (auto simp: skip_space_eq cutspace_def split: if_splits)
  have ne: "v \<noteq> []" using assms(2) v' by auto
  obtain c where "c \<in> set v" "\<not> c = CHR '' ''"
    using assms(2) v' by (auto simp: dropWhile_eq_Nil_conv)
  then have "dropWhile (\<lambda>c. c = CHR '' '') (v @ x) = v' @ x"
    unfolding v' by (rule dropWhile_append1)
  then show ?thesis using h ne by (simp add: skip_space_eq cutspace_def)
qed

lemma skip_colon_append: "skip v '':'' = Some v' \<Longrightarrow> skip (v @ x) '':'' = Some (v' @ x)"
  by (cases v) (auto simp: skip_colon_eq split: if_splits)

lemma getnum_append_fixed:
  "getnum v True = Some (n, v') \<Longrightarrow> getnum (v @ x) True = Some (n, v' @ x)"
  by (cases "(v, True)" rule: getnum.cases) (auto split: if_splits)

lemma getnum_append:
  "getnum v False = Some (n, v') \<Longrightarrow> v' \<noteq> [] \<Longrightarrow> getnum (v @ x) False = Some (n, v' @ x)"
  by (cases "(v, False)" rule: getnum.cases) (auto split: if_splits)

lemma fraction_append:
  assumes "fraction v = (ns, v')" "v' \<noteq> []" "hd v' = CHR '' ''"
  shows "fraction (v @ x) = (ns, v' @ x)"
proof (cases "\<exists>c d rest. v = c # d # rest \<and> (c = CHR ''.'' \<or> c = CHR '','') \<and> is_digit d")
  case True
  then obtain c d rest where v: "v = c # d # rest" and c: "c = CHR ''.'' \<or> c = CHR '',''"
    and d: "is_digit d" by blast
  have v': "v' = dropWhile is_digit rest"
    using assms(1) c d unfolding v fraction_def by (auto simp: Let_def)
  obtain y where ex: "y \<in> set rest" "\<not> is_digit y"
    using assms(2) unfolding v' by (simp only: dropWhile_eq_Nil_conv) blast
  have t: "takeWhile is_digit (rest @ x) = takeWhile is_digit rest"
    using ex by (rule takeWhile_append1)
  have dr: "dropWhile is_digit (rest @ x) = dropWhile is_digit rest @ x"
    using ex by (rule dropWhile_append1)
  show ?thesis
    using assms(1) c d unfolding v fraction_def by (auto simp: Let_def t dr)
next
  case False
  then have same: "v' = v" "ns = 0"
    using assms(1) by (auto simp: fraction_def split: list.splits if_splits)
  then obtain r where v: "v = CHR '' '' # r" using assms(2,3) by (cases v) auto
  show ?thesis using same by (simp add: v fraction_def split: list.splits)
qed

lemma parse_year_append:
  "parse_year v = Some (y, v') \<Longrightarrow> parse_year (v @ x) = Some (y, v' @ x)"
  by (cases v) (auto simp: parse_year_def split: if_splits option.splits)

lemma parse_zone_append:
  "parse_zone v = Inr (z, v') \<Longrightarrow> parse_zone (v @ x) = Inr (z, v' @ x)"
  by (auto simp: parse_zone_def hd_append split: if_splits option.splits)


lemma parse_date_append:
  assumes "parse_date v = Inr (a, v')"
  shows "parse_date (v @ x) = Inr (a, v' @ x)"
proof -
  obtain wd v1 v2 mon v3 v4 day where
    s1: "lookup shortDayNames v = Some (wd, v1)" and s2: "skip v1 '' '' = Some v2"
    and s3: "lookup shortMonthNames v2 = Some (mon, v3)" and s4: "skip v3 '' '' = Some v4"
    and s5: "getnum v4 True = Some (day, v')" and a: "a = (int mon + 1, day)"
    using assms by (auto simp: parse_date_def element_def split: option.splits prod.splits)
  have n2: "v2 \<noteq> []" using s3 lookup_Nil by auto
  have n4: "v4 \<noteq> []" using s5 by auto
  show ?thesis
    unfolding parse_date_def
    by (simp only: lookup_append(1) [OF s1] skip_space_append [OF s2 n2]
        lookup_append(2) [OF s3] skip_space_append [OF s4 n4] getnum_append_fixed [OF s5]
        element_Some prod.case a)
qed

lemma parse_clock_append:
  assumes "parse_clock v = Inr (b, v')" "v' \<noteq> []" "hd v' = CHR '' ''"
  shows "parse_clock (v @ x) = Inr (b, v' @ x)"
proof -
  obtain v1 hour v2 v3 minute v4 v5 sec v6 nsec where
    s1: "skip v '' '' = Some v1" and s2: "getnum v1 False = Some (hour, v2)"
    and r2: "hour < 24" and s3: "skip v2 '':'' = Some v3"
    and s4: "getnum v3 True = Some (minute, v4)" and r4: "minute < 60"
    and s5: "skip v4 '':'' = Some v5" and s6: "getnum v5 True = Some (sec, v6)"
    and r6: "sec < 60" and s7: "fraction v6 = (nsec, v')" and b: "b = (hour, minute, sec, nsec)"
    using assms(1)
    by (auto simp: parse_clock_def element_def in_range_def split: option.splits prod.splits if_splits)
  have n1: "v1 \<noteq> []" using s2 by auto
  have n2: "v2 \<noteq> []" using s3 by auto
  show ?thesis
    unfolding parse_clock_def
    by (simp only: skip_space_append [OF s1 n1] getnum_append [OF s2 n2] skip_colon_append [OF s3]
        getnum_append_fixed [OF s4] skip_colon_append [OF s5] getnum_append_fixed [OF s6]
        fraction_append [OF s7 assms(2,3)] element_Some prod.case in_range_True r2 r4 r6 b)
qed

lemma parse_year_Nil: "parse_year [] = None"
  by (simp add: parse_year_def)

lemma parse_zone_Nil: "parse_zone [] = Inl errBad"
  by (simp add: parse_zone_def)

lemma parse_year_zone_stages:
  assumes "parse_year_zone v = Inr (c, v')"
  obtains v1 year v2 v3 offset where
    "skip v '' '' = Some v1" "parse_year v1 = Some (year, v2)" "skip v2 '' '' = Some v3"
    "parse_zone v3 = Inr (offset, v')" "c = (year, offset)"
  using assms
  by (auto simp: parse_year_zone_def element_def split: option.splits prod.splits sum.splits)

lemma parse_year_zone_append:
  assumes "parse_year_zone v = Inr (c, v')"
  shows "parse_year_zone (v @ x) = Inr (c, v' @ x)"
proof -
  from assms obtain v1 year v2 v3 offset where
    s1: "skip v '' '' = Some v1" and s2: "parse_year v1 = Some (year, v2)"
    and s3: "skip v2 '' '' = Some v3" and s4: "parse_zone v3 = Inr (offset, v')"
    and c: "c = (year, offset)"
    by (rule parse_year_zone_stages)
  have n1: "v1 \<noteq> []" using s2 parse_year_Nil by auto
  have n3: "v3 \<noteq> []" using s4 parse_zone_Nil by auto
  show ?thesis
    unfolding parse_year_zone_def
    by (simp only: skip_space_append [OF s1 n1] parse_year_append [OF s2]
        skip_space_append [OF s3 n3] parse_zone_append [OF s4] element_Some prod.case sum.case c)
qed

lemma parse_year_zone_starts:
  assumes "parse_year_zone v = Inr (c, v')"
  shows "v \<noteq> [] \<and> hd v = CHR '' ''"
proof -
  from assms obtain v1 year v2 v3 offset where
    s1: "skip v '' '' = Some v1" and s2: "parse_year v1 = Some (year, v2)"
    by (rule parse_year_zone_stages)
  have "v1 \<noteq> []" using s2 parse_year_Nil by auto
  then show ?thesis using s1 by (auto simp: skip_space_eq cutspace_def split: if_splits)
qed

lemma parse_elements_stages:
  assumes "parse_elements v = Inr (f, v')"
  obtains a v1 b v2 c where
    "parse_date v = Inr (a, v1)" "parse_clock v1 = Inr (b, v2)" "parse_year_zone v2 = Inr (c, v')"
    "f = \<lparr>f_year = fst c, f_month = fst a, f_day = snd a, f_hour = fst b,
          f_min = fst (snd b), f_sec = fst (snd (snd b)), f_nsec = snd (snd (snd b)),
          f_zone = snd c\<rparr>"
  using assms
  by (auto simp: parse_elements_def split: sum.splits prod.splits)

lemma parse_elements_append:
  assumes "parse_elements v = Inr (f, v')"
  shows "parse_elements (v @ x) = Inr (f, v' @ x)"
proof -
  from assms obtain a v1 b v2 c where
    p1: "parse_date v = Inr (a, v1)" and p2: "parse_clock v1 = Inr (b, v2)"
    and p3: "parse_year_zone v2 = Inr (c, v')"
    and f: "f = \<lparr>f_year = fst c, f_month = fst a, f_day = snd a, f_hour = fst b,
          f_min = fst (snd b), f_sec = fst (snd (snd b)), f_nsec = snd (snd (snd b)),
          f_zone = snd c\<rparr>"
    by (rule parse_elements_stages)
  have st: "v2 \<noteq> []" "hd v2 = CHR '' ''"
    using parse_year_zone_starts [OF p3] by simp_all
  show ?thesis
    unfolding parse_elements_def
    by (simp add: parse_date_append [OF p1] parse_clock_append [OF p2 st]
        parse_year_zone_append [OF p3] f split: prod.splits)
qed

text \<open>Text after a value that parses is an error.\<close>

lemma Parse_extra_text:
  assumes "Parse_DateFormat v = Inr t" "x \<noteq> []"
  shows "Parse_DateFormat (v @ x) = Inl (ParseError '': extra text'')"
proof -
  obtain f where "parse_elements v = Inr (f, [])"
    using assms(1)
    by (auto simp: Parse_DateFormat_def split: sum.splits prod.splits if_splits)
  then have "parse_elements (v @ x) = Inr (f, [] @ x)"
    by (rule parse_elements_append)
  then show ?thesis using assms(2) by (simp add: Parse_DateFormat_def)
qed

text \<open>What is left after an element is the end of what it was given.\<close>

lemma lookup_from_suffix: "lookup_from i tab v = Some (j, v') \<Longrightarrow> suffix v' v"
  by (induction tab arbitrary: i) (auto simp: suffix_drop split: if_splits)

lemma lookup_suffix: "lookup tab v = Some (j, v') \<Longrightarrow> suffix v' v"
  unfolding lookup_def by (rule lookup_from_suffix)

lemma skip_space_suffix: "skip v '' '' = Some v' \<Longrightarrow> suffix v' v"
  by (auto simp: skip_space_eq cutspace_def suffix_dropWhile split: if_splits)

lemma skip_colon_suffix: "skip v '':'' = Some v' \<Longrightarrow> suffix v' v"
  by (cases v) (auto simp: skip_colon_eq suffix_ConsI split: if_splits)

lemma getnum_suffix: "getnum v fixed = Some (n, v') \<Longrightarrow> suffix v' v"
  by (cases "(v, fixed)" rule: getnum.cases) (auto simp: suffix_ConsI split: if_splits)

lemma fraction_suffix: "fraction v = (ns, v') \<Longrightarrow> suffix v' v"
  by (auto simp: fraction_def Let_def suffix_ConsI suffix_dropWhile split: list.splits if_splits)

lemma parse_date_suffix:
  assumes "parse_date v = Inr (a, v')"
  shows "suffix v' v"
proof -
  obtain wd v1 v2 mon v3 v4 day where
    s1: "lookup shortDayNames v = Some (wd, v1)" and s2: "skip v1 '' '' = Some v2"
    and s3: "lookup shortMonthNames v2 = Some (mon, v3)" and s4: "skip v3 '' '' = Some v4"
    and s5: "getnum v4 True = Some (day, v')"
    using assms by (auto simp: parse_date_def element_def split: option.splits prod.splits)
  have "suffix v' v4" using s5 by (rule getnum_suffix)
  also have "suffix v4 v3" using s4 by (rule skip_space_suffix)
  also have "suffix v3 v2" using s3 by (rule lookup_suffix)
  also have "suffix v2 v1" using s2 by (rule skip_space_suffix)
  also have "suffix v1 v" using s1 by (rule lookup_suffix)
  finally show ?thesis .
qed

lemma parse_clock_suffix:
  assumes "parse_clock v = Inr (b, v')"
  shows "suffix v' v"
proof -
  obtain v1 hour v2 v3 minute v4 v5 sec v6 nsec where
    s1: "skip v '' '' = Some v1" and s2: "getnum v1 False = Some (hour, v2)"
    and s3: "skip v2 '':'' = Some v3"
    and s4: "getnum v3 True = Some (minute, v4)"
    and s5: "skip v4 '':'' = Some v5" and s6: "getnum v5 True = Some (sec, v6)"
    and s7: "fraction v6 = (nsec, v')"
    using assms
    by (auto simp: parse_clock_def element_def in_range_def split: option.splits prod.splits if_splits)
  have "suffix v' v6" using s7 by (rule fraction_suffix)
  also have "suffix v6 v5" using s6 by (rule getnum_suffix)
  also have "suffix v5 v4" using s5 by (rule skip_colon_suffix)
  also have "suffix v4 v3" using s4 by (rule getnum_suffix)
  also have "suffix v3 v2" using s3 by (rule skip_colon_suffix)
  also have "suffix v2 v1" using s2 by (rule getnum_suffix)
  also have "suffix v1 v" using s1 by (rule skip_space_suffix)
  finally show ?thesis .
qed

lemma parse_zone_last:
  assumes "parse_zone v = Inr (z, [])"
  shows "v \<noteq> [] \<and> is_digit (last v)"
proof -
  have l: "length v = 5"
    using assms by (auto simp: parse_zone_def split: if_splits option.splits)
  then obtain a b c d e where v: "v = [a, b, c, d, e]"
    by (auto simp: length_Suc_conv eval_nat_numeral)
  have "is_digit e"
    using assms unfolding v by (auto simp: parse_zone_def split: if_splits option.splits)
  then show ?thesis by (simp add: v)
qed

lemma parse_year_zone_last:
  assumes "parse_year_zone v = Inr (c, [])"
  shows "v \<noteq> [] \<and> is_digit (last v)"
proof -
  from assms obtain v1 year v2 v3 offset where
    s1: "skip v '' '' = Some v1" and s2: "parse_year v1 = Some (year, v2)"
    and s3: "skip v2 '' '' = Some v3" and s4: "parse_zone v3 = Inr (offset, [])"
    by (rule parse_year_zone_stages)
  have z: "v3 \<noteq> []" "is_digit (last v3)" using parse_zone_last [OF s4] by simp_all
  have "suffix v3 v2" using s3 by (rule skip_space_suffix)
  also have "suffix v2 v1" using s2 by (auto simp: parse_year_def suffix_drop split: if_splits option.splits)
  also have "suffix v1 v" using s1 by (rule skip_space_suffix)
  finally obtain p where "v = p @ v3" by (auto simp: suffix_def)
  then show ?thesis using z by simp
qed

lemma Parse_last_digit:
  assumes "Parse_DateFormat v = Inr t"
  shows "v \<noteq> [] \<and> is_digit (last v)"
proof -
  obtain f where "parse_elements v = Inr (f, [])"
    using assms
    by (auto simp: Parse_DateFormat_def split: sum.splits prod.splits if_splits)
  then obtain a v1 b v2 c where
    p1: "parse_date v = Inr (a, v1)" and p2: "parse_clock v1 = Inr (b, v2)"
    and p3: "parse_year_zone v2 = Inr (c, [])"
    by (rule parse_elements_stages)
  have z: "v2 \<noteq> []" "is_digit (last v2)" using parse_year_zone_last [OF p3] by simp_all
  have "suffix v2 v1" using p2 by (rule parse_clock_suffix)
  also have "suffix v1 v" using p1 by (rule parse_date_suffix)
  finally obtain p where "v = p @ v2" by (auto simp: suffix_def)
  then show ?thesis using z by simp
qed

lemma newline_no_digit: "\<not> is_digit newline"
  by (simp add: is_digit_def newline_def)

lemma TrimRight_keep: "v \<noteq> [] \<Longrightarrow> last v \<notin> set cutset \<Longrightarrow> TrimRight v cutset = v"
  by (cases v rule: rev_cases) (simp_all add: TrimRight_def)

lemma TrimRight_newlines: "TrimRight (v @ replicate n newline) [newline] = TrimRight v [newline]"
proof -
  have "dropWhile (\<lambda>c. c \<in> set [newline]) (replicate n newline @ rev v) =
      dropWhile (\<lambda>c. c \<in> set [newline]) (rev v)"
    by (rule dropWhile_append2) simp
  then show ?thesis by (simp add: TrimRight_def)
qed

lemma TrimRight_append:
  assumes "x \<noteq> []" "last x \<notin> set cutset"
  shows "TrimRight (v @ x) cutset = v @ x"
  using assms by (intro TrimRight_keep) auto

section \<open>Proofs: six months before a time\<close>

text \<open>
  \<open>Date_in\<close> takes off the reading of the wall clock one offset of the Location: the one
  in force at the reading taken as an instant of UTC, or the one in force at the instant
  found with it.
\<close>

lemma Date_in_cases:
  assumes ns: "0 \<le> ns" "ns < 1000000000"
    and W: "W = (daysSinceEpoch (year + (month - 1) div 12) + daysBefore ! nat ((month - 1) mod 12)
                + (if isLeap (year + (month - 1) div 12) \<and> 3 \<le> (month - 1) mod 12 + 1 then 1 else 0)
                + (day - 1)) * 86400 + hour * 3600 + minute * 60 + sec - 719162 * 86400"
  obtains off u where
    "Date_in year month day hour minute sec ns loc =
       \<lparr>unixNano = (W - off) * 1000000000 + ns, zone = fst (Location_lookup loc (W - off))\<rparr>"
    "off = fst (Location_lookup loc u)" "u = W \<or> u = W - fst (Location_lookup loc W)"
proof -
  have nd: "ns div 1000000000 = 0" "ns mod 1000000000 = ns" using ns by simp_all
  obtain offset start stop where l: "Location_lookup loc W = (offset, start, stop)"
    by (cases "Location_lookup loc W")
  have step: "Date_in year month day hour minute sec ns loc =
      (case Location_lookup loc W of (offset, start, stop) \<Rightarrow>
         \<lparr>unixNano =
            (if offset \<noteq> 0 then
               W - (if W - offset < start \<or> stop \<le> W - offset
                    then fst (Location_lookup loc (W - offset)) else offset)
             else W) * 1000000000 + ns,
          zone = fst (Location_lookup loc
            (if offset \<noteq> 0 then
               W - (if W - offset < start \<or> stop \<le> W - offset
                    then fst (Location_lookup loc (W - offset)) else offset)
             else W))\<rparr>)"
    unfolding Date_in_def Let_def nd add_0_right W ..
  consider (zero) "offset = 0" | (inside) "offset \<noteq> 0" "\<not> (W - offset < start \<or> stop \<le> W - offset)"
    | (outside) "offset \<noteq> 0" "W - offset < start \<or> stop \<le> W - offset"
    by blast
  then show ?thesis
  proof cases
    case zero
    show ?thesis
    proof (rule that [of 0 W])
      show "Date_in year month day hour minute sec ns loc =
          \<lparr>unixNano = (W - 0) * 1000000000 + ns, zone = fst (Location_lookup loc (W - 0))\<rparr>"
        using step l zero by simp
      show "0 = fst (Location_lookup loc W)" using l zero by simp
      show "W = W \<or> W = W - fst (Location_lookup loc W)" by simp
    qed
  next
    case inside
    show ?thesis
    proof (rule that [of offset W])
      show "Date_in year month day hour minute sec ns loc =
          \<lparr>unixNano = (W - offset) * 1000000000 + ns,
           zone = fst (Location_lookup loc (W - offset))\<rparr>"
        using step l inside by simp
      show "offset = fst (Location_lookup loc W)" using l by simp
      show "W = W \<or> W = W - fst (Location_lookup loc W)" by simp
    qed
  next
    case outside
    show ?thesis
    proof (rule that [of "fst (Location_lookup loc (W - offset))" "W - offset"])
      show "Date_in year month day hour minute sec ns loc =
          \<lparr>unixNano = (W - fst (Location_lookup loc (W - offset))) * 1000000000 + ns,
           zone = fst (Location_lookup loc (W - fst (Location_lookup loc (W - offset))))\<rparr>"
        using step l outside by simp
      show "fst (Location_lookup loc (W - offset)) = fst (Location_lookup loc (W - offset))" ..
      show "W - offset = W \<or> W - offset = W - fst (Location_lookup loc W)" using l by simp
    qed
  qed
qed

text \<open>For a Location of one zone \<open>Date_in\<close> is \<open>Date\<close> at the offset of the zone.\<close>

lemma Date_in_FixedZone:
  assumes "0 \<le> ns" "ns < 1000000000"
  shows "Date_in year month day hour minute sec ns (FixedZone offset) =
     Date year month day hour minute sec ns offset"
proof -
  define W where "W = (daysSinceEpoch (year + (month - 1) div 12) + daysBefore ! nat ((month - 1) mod 12)
                + (if isLeap (year + (month - 1) div 12) \<and> 3 \<le> (month - 1) mod 12 + 1 then 1 else 0)
                + (day - 1)) * 86400 + hour * 3600 + minute * 60 + sec - 719162 * 86400"
  obtain off u where c:
    "Date_in year month day hour minute sec ns (FixedZone offset) =
       \<lparr>unixNano = (W - off) * 1000000000 + ns,
        zone = fst (Location_lookup (FixedZone offset) (W - off))\<rparr>"
    "off = fst (Location_lookup (FixedZone offset) u)"
    using assms W_def by (rule Date_in_cases)
  have off: "off = offset" using c(2) by (simp add: FixedZone_def)
  have "Date year month day hour minute sec ns offset =
      \<lparr>unixNano = (W - offset) * 1000000000 + ns, zone = offset\<rparr>"
    unfolding Date_def Let_def W_def ..
  then show ?thesis using c(1) off by (simp add: FixedZone_def)
qed


lemma time_fields:
  obtains y m d H M S where
    "date_of t = (y, m, d)" "clock_of t = (H, M, S)"
    "1 \<le> m" "m \<le> 12" "1 \<le> d" "d \<le> daysIn m y" "d \<le> 31"
    "0 \<le> H * 3600 + M * 60 + S" "H * 3600 + M * 60 + S < 86400"
    "abs_sec t =
       (daysSinceEpoch y + daysBefore ! nat (m - 1) + (if isLeap y \<and> 3 \<le> m then 1 else 0)
          + (d - 1)) * 86400 + (H * 3600 + M * 60 + S)"
proof -
  define days where "days = abs_sec t div 86400"
  define s where "s = abs_sec t mod 86400"
  obtain y yday where ay: "absYear days = (y, yday)" by (cases "absYear days")
  obtain m d where md: "monthDay y yday = (m, d)" by (cases "monthDay y yday")
  define H where "H = s div 3600"
  define M where "M = s mod 3600 div 60"
  define S where "S = s mod 60"
  have dt: "date_of t = (y, m, d)"
    by (simp add: date_of_def days_def [symmetric] ay md)
  have ck: "clock_of t = (H, M, S)"
    by (simp add: clock_of_def s_def [symmetric] H_def M_def S_def Let_def)
  note rt = date_roundtrip [OF ay md]
  have s: "0 \<le> s" "s < 86400" by (simp_all add: s_def)
  have cb: "H * 3600 + M * 60 + S = s"
    unfolding H_def M_def S_def using clock_bounds [OF s] by blast
  have ab: "abs_sec t = days * 86400 + s" by (simp add: days_def s_def)
  have dd: "days = daysSinceEpoch y + daysBefore ! nat (m - 1)
      + (if isLeap y \<and> 3 \<le> m then 1 else 0) + (d - 1)"
    using rt by simp
  have mb: "1 \<le> m" "m \<le> 12" "1 \<le> d" "d \<le> daysIn m y" "d \<le> 31"
    using rt by blast+
  show ?thesis
  proof (rule that [OF dt ck mb])
    show "0 \<le> H * 3600 + M * 60 + S" "H * 3600 + M * 60 + S < 86400"
      using s cb by simp_all
    show "abs_sec t =
       (daysSinceEpoch y + daysBefore ! nat (m - 1) + (if isLeap y \<and> 3 \<le> m then 1 else 0)
          + (d - 1)) * 86400 + (H * 3600 + M * 60 + S)"
      unfolding cb dd [symmetric] by (rule ab)
  qed
qed

lemma clock_of_eq: "abs_sec t mod 86400 = abs_sec u mod 86400 \<Longrightarrow> clock_of t = clock_of u"
  by (simp add: clock_of_def)

text \<open>The month six months before a month, and the days between the two.\<close>

lemma half_year_month:
  fixes m :: int
  assumes "1 \<le> m" "m \<le> 12"
  shows "(m - 6 - 1) div 12 = (if m \<le> 6 then - 1 else 0) \<and>
     (m - 6 - 1) mod 12 = (if m \<le> 6 then m + 6 else m - 6) - 1 \<and>
     1 \<le> (if m \<le> 6 then m + 6 else m - 6) \<and> (if m \<le> 6 then m + 6 else m - 6) \<le> 12"
  using month_cases [OF assms] by (elim disjE) simp_all

lemma half_year_days:
  fixes y m :: int
  assumes "1 \<le> m" "m \<le> 12"
  defines "y' \<equiv> (if m \<le> 6 then y - 1 else y)"
  defines "m' \<equiv> (if m \<le> 6 then m + 6 else m - 6)"
  defines "n \<equiv> (daysSinceEpoch y + daysBefore ! nat (m - 1) + (if isLeap y \<and> 3 \<le> m then 1 else 0))
     - (daysSinceEpoch y' + daysBefore ! nat (m' - 1) + (if isLeap y' \<and> 3 \<le> m' then 1 else 0))"
  shows "181 \<le> n \<and> n \<le> 184"
proof -
  have nx: "daysSinceEpoch y = daysSinceEpoch (y - 1) + (if isLeap (y - 1) then 366 else 365)"
    using daysSinceEpoch_next [of "y - 1"] by simp
  show ?thesis
    unfolding n_def y'_def m'_def
    using month_cases [OF assms(1,2)] nx
    by (elim disjE) (simp_all add: daysBefore_def)
qed

text \<open>
  \<^verbatim>\<open>t.AddDate(0, -6, 0)\<close> in any Location: the instant, and, where the Location keeps
  one offset around the result, the clock and the date.
\<close>

lemma div_mod_offset:
  fixes k s b :: int
  assumes "0 \<le> s" "s < b"
  shows "(k * b + s) div b = k \<and> (k * b + s) mod b = s"
proof -
  have "b \<noteq> 0" using assms by auto
  then have "(k * b + s) div b = k + s div b" by (rule div_mult_self3)
  moreover have "s div b = 0" using assms by (rule div_pos_pos_trivial)
  moreover have "(k * b + s) mod b = s mod b" by (rule mod_mult_self3)
  moreover have "s mod b = s" using assms by (rule mod_pos_pos_trivial)
  ultimately show ?thesis by simp
qed

lemma AddDate_half_year:
  fixes t :: time and loc :: Location
  defines "v \<equiv> AddDate t loc 0 (- 6) 0"
  shows "nsec_of v = nsec_of t \<and>
     zone v = fst (Location_lookup loc (unixNano v div 1000000000)) \<and>
     (\<exists>n u. 181 \<le> n \<and> n \<le> 184 \<and>
        unixNano t - unixNano v =
          (n * 86400 + fst (Location_lookup loc u) - zone t) * 1000000000) \<and>
     ((\<forall>u. \<bar>fst (Location_lookup loc u)\<bar> \<le> 86400) \<and>
      (\<forall>u. \<bar>u - unixNano v div 1000000000\<bar> \<le> 172800 \<longrightarrow> fst (Location_lookup loc u) = zone v) \<longrightarrow>
        clock_of v = clock_of t \<and>
        (\<forall>y m d. date_of t = (y, m, d) \<longrightarrow>
           (let y' = (if m \<le> 6 then y - 1 else y); m' = (if m \<le> 6 then m + 6 else m - 6)
            in date_of v = (if d \<le> daysIn m' y' then (y', m', d)
                            else (y', m' + 1, d - daysIn m' y')))))"
proof -
  obtain y m d H M S where f:
    "date_of t = (y, m, d)" "clock_of t = (H, M, S)"
    "1 \<le> m" "m \<le> 12" "1 \<le> d" "d \<le> daysIn m y" "d \<le> 31"
    "0 \<le> H * 3600 + M * 60 + S" "H * 3600 + M * 60 + S < 86400"
    "abs_sec t =
       (daysSinceEpoch y + daysBefore ! nat (m - 1) + (if isLeap y \<and> 3 \<le> m then 1 else 0)
          + (d - 1)) * 86400 + (H * 3600 + M * 60 + S)"
    by (rule time_fields)
  define ns where "ns = nsec_of t"
  define s where "s = H * 3600 + M * 60 + S"
  define y' where "y' = (if m \<le> 6 then y - 1 else y)"
  define m' where "m' = (if m \<le> 6 then m + 6 else m - 6)"
  define D where "D = daysSinceEpoch y + daysBefore ! nat (m - 1) + (if isLeap y \<and> 3 \<le> m then 1 else 0)"
  define D' where "D' = daysSinceEpoch y' + daysBefore ! nat (m' - 1) + (if isLeap y' \<and> 3 \<le> m' then 1 else 0)"
  define W where "W = (D' + (d - 1)) * 86400 + s - 719162 * 86400"
  have ns: "0 \<le> ns" "ns < 1000000000" by (simp_all add: ns_def nsec_of_def)
  note hm = half_year_month [OF f(3,4)]
  have m': "1 \<le> m'" "m' \<le> 12" using hm by (simp_all add: m'_def)
  have yy: "y + (m - 6 - 1) div 12 = y'" using hm by (simp add: y'_def)
  have mm: "(m - 6 - 1) mod 12 = m' - 1" using hm by (simp add: m'_def)
  have v: "v = Date_in y (m - 6) d H M S ns loc"
    by (simp add: v_def AddDate_def f(1,2) ns_def)
  have Weq: "W = (daysSinceEpoch (y + (m - 6 - 1) div 12) + daysBefore ! nat ((m - 6 - 1) mod 12)
                + (if isLeap (y + (m - 6 - 1) div 12) \<and> 3 \<le> (m - 6 - 1) mod 12 + 1 then 1 else 0)
                + (d - 1)) * 86400 + H * 3600 + M * 60 + S - 719162 * 86400"
    unfolding yy mm by (simp add: W_def D'_def s_def)
  obtain off u where c:
    "Date_in y (m - 6) d H M S ns loc =
       \<lparr>unixNano = (W - off) * 1000000000 + ns, zone = fst (Location_lookup loc (W - off))\<rparr>"
    "off = fst (Location_lookup loc u)" "u = W \<or> u = W - fst (Location_lookup loc W)"
    using ns Weq by (rule Date_in_cases)
  have un: "unixNano v = (W - off) * 1000000000 + ns" using v c(1) by simp
  have sec: "unixNano v div 1000000000 = W - off"
    unfolding un using ns by simp
  have zv: "zone v = fst (Location_lookup loc (W - off))" using v c(1) by simp
  have "((W - off) * 1000000000 + ns) mod 1000000000 = ns mod 1000000000"
    by (rule mod_mult_self3)
  then have "unixNano v mod 1000000000 = ns" unfolding un using ns by simp
  then have A: "nsec_of v = nsec_of t"
    by (simp add: nsec_of_def [of v] ns_def)
  have B: "zone v = fst (Location_lookup loc (unixNano v div 1000000000))"
    unfolding sec by (rule zv)
  have n: "181 \<le> D - D' \<and> D - D' \<le> 184"
    unfolding D_def D'_def y'_def m'_def using f(3,4) by (rule half_year_days)
  have ut: "unixNano t = (unixNano t div 1000000000) * 1000000000 + ns"
    by (simp add: ns_def nsec_of_def)
  have at: "unixNano t div 1000000000 = (D + (d - 1)) * 86400 + s - zone t - 719162 * 86400"
    using f(10) by (simp add: abs_sec_def D_def s_def)
  have "unixNano t - unixNano v =
      (unixNano t div 1000000000 - (W - off)) * 1000000000"
    using ut un by (simp add: algebra_simps)
  also have "unixNano t div 1000000000 - (W - off) = (D - D') * 86400 + off - zone t"
    unfolding at W_def by (simp add: algebra_simps)
  finally have "unixNano t - unixNano v =
      ((D - D') * 86400 + fst (Location_lookup loc u) - zone t) * 1000000000"
    using c(2) by simp
  then have C: "\<exists>n u. 181 \<le> n \<and> n \<le> 184 \<and>
        unixNano t - unixNano v =
          (n * 86400 + fst (Location_lookup loc u) - zone t) * 1000000000"
    using n by blast
  have E: "clock_of v = clock_of t \<and>
        (\<forall>y m d. date_of t = (y, m, d) \<longrightarrow>
           (let y' = (if m \<le> 6 then y - 1 else y); m' = (if m \<le> 6 then m + 6 else m - 6)
            in date_of v = (if d \<le> daysIn m' y' then (y', m', d)
                            else (y', m' + 1, d - daysIn m' y'))))"
    if bound: "\<forall>u. \<bar>fst (Location_lookup loc u)\<bar> \<le> 86400"
      and steady: "\<forall>u. \<bar>u - unixNano v div 1000000000\<bar> \<le> 172800 \<longrightarrow>
         fst (Location_lookup loc u) = zone v"
  proof -
    have b1: "\<bar>off\<bar> \<le> 86400" unfolding c(2) using bound by blast
    have b2: "\<bar>fst (Location_lookup loc W)\<bar> \<le> 86400" using bound by blast
    have "\<bar>u - (W - off)\<bar> \<le> 172800" using c(3) b1 b2 by auto
    then have "fst (Location_lookup loc u) = zone v" using steady sec by simp
    then have oz: "zone v = off" using c(2) by simp
    have av: "abs_sec v = (D' + (d - 1)) * 86400 + s"
      by (simp add: abs_sec_def sec oz W_def)
    have sb: "0 \<le> s" "s < 86400" using f(8,9) by (simp_all add: s_def)
    have vm: "abs_sec v mod 86400 = s"
      unfolding av using div_mod_offset [OF sb, of "D' + (d - 1)"] by blast
    have vd: "abs_sec v div 86400 = D' + (d - 1)"
      unfolding av using div_mod_offset [OF sb, of "D' + (d - 1)"] by blast
    have "abs_sec t = (D + (d - 1)) * 86400 + s" using f(10) by (simp only: D_def s_def)
    then have tm: "abs_sec t mod 86400 = s"
      using div_mod_offset [OF sb, of "D + (d - 1)"] by simp
    have ck: "clock_of v = clock_of t" using vm tm by (intro clock_of_eq) simp
    have vd': "abs_sec v div 86400 =
        daysSinceEpoch y' + daysBefore ! nat (m' - 1) + (if isLeap y' \<and> 3 \<le> m' then 1 else 0)
          + (d - 1)"
      using vd by (simp add: D'_def)
    have dv: "date_of v = (if d \<le> daysIn m' y' then (y', m', d)
                            else (y', m' + 1, d - daysIn m' y'))"
    proof (cases "d \<le> daysIn m' y'")
      case True
      have "date_of v = (y', m', d)" using m' f(5) True vd' by (rule date_of_inverse)
      then show ?thesis using True by simp
    next
      case False
      then have "daysIn m' y' < d" by simp
      then have "date_of v = (y', m' + 1, d - daysIn m' y')"
        using m' f(7) vd' by (intro date_of_overflow)
      then show ?thesis using False by simp
    qed
    show ?thesis
    proof (intro conjI allI impI)
      show "clock_of v = clock_of t" by (rule ck)
      fix y2 m2 d2 assume "date_of t = (y2, m2, d2)"
      then have e: "y2 = y" "m2 = m" "d2 = d" using f(1) by simp_all
      show "let y' = (if m2 \<le> 6 then y2 - 1 else y2); m' = (if m2 \<le> 6 then m2 + 6 else m2 - 6)
            in date_of v = (if d2 \<le> daysIn m' y' then (y', m', d2)
                            else (y', m' + 1, d2 - daysIn m' y'))"
        unfolding e Let_def y'_def [symmetric] m'_def [symmetric] by (rule dv)
    qed
  qed
  show ?thesis using A B C E by blast
qed

section \<open>Proofs: reading and writing the checkpoint\<close>

lemma readCheckTime_File:
  "nodes w filename = File b \<Longrightarrow>
     readCheckTime e filename w = Parse_DateFormat (TrimRight b [newline])"
  by (simp add: readCheckTime_def os_Stat_def ReadFile_def)

lemma TrimRight_valid:
  assumes "Parse_DateFormat v = Inr t"
  shows "TrimRight v [newline] = v"
proof -
  have "v \<noteq> []" "is_digit (last v)" using Parse_last_digit [OF assms] by simp_all
  then have "last v \<notin> set [newline]" using newline_no_digit by auto
  then show ?thesis using \<open>v \<noteq> []\<close> by (intro TrimRight_keep)
qed

text \<open>
  Claim C9. \<^verbatim>\<open>readCheckTime\<close> gives the same result for a file and for the file with
  newlines added at its end; when the content is a time the layout accepts followed by
  newlines only, the result is that time. Any other text after such a time (text that does
  not end in a newline, such as a carriage return, whether or not newlines follow it) is
  not removed, and the parse fails with the error of extra text.
\<close>

theorem trailing_newlines_only:
  "(nodes w filename = File (v @ replicate n newline) \<and> nodes w' filename = File v \<longrightarrow>
      readCheckTime e filename w = readCheckTime e filename w') \<and>
   (nodes w filename = File (v @ replicate n newline) \<and> Parse_DateFormat v = Inr t \<longrightarrow>
      readCheckTime e filename w = Inr t) \<and>
   (nodes w filename = File (v @ x @ replicate n newline) \<and> Parse_DateFormat v = Inr t \<and>
    x \<noteq> [] \<and> last x \<noteq> newline \<longrightarrow>
      readCheckTime e filename w = Inl (ParseError '': extra text''))"
proof (intro conjI impI)
  assume "nodes w filename = File (v @ replicate n newline) \<and> nodes w' filename = File v"
  then show "readCheckTime e filename w = readCheckTime e filename w'"
    by (simp add: readCheckTime_File TrimRight_newlines)
next
  assume "nodes w filename = File (v @ replicate n newline) \<and> Parse_DateFormat v = Inr t"
  then show "readCheckTime e filename w = Inr t"
    by (simp add: readCheckTime_File TrimRight_newlines TrimRight_valid)
next
  assume h: "nodes w filename = File (v @ x @ replicate n newline) \<and> Parse_DateFormat v = Inr t \<and>
    x \<noteq> [] \<and> last x \<noteq> newline"
  have "TrimRight ((v @ x) @ replicate n newline) [newline] = TrimRight (v @ x) [newline]"
    by (rule TrimRight_newlines)
  also have "\<dots> = v @ x" using h by (intro TrimRight_append) auto
  finally have "readCheckTime e filename w = Parse_DateFormat (v @ x)"
    using h by (simp add: readCheckTime_File)
  then show "readCheckTime e filename w = Inl (ParseError '': extra text'')"
    using h Parse_extra_text by simp
qed

lemma example_parse:
  "Parse_DateFormat ''Tue Dec 10 13:07:28 2019 +0800'' = Inr (at_ns scenario_T)"
  by code_simp

theorem trailing_newlines_only_witness:
  "readCheckTime example_env ''check.txt'' unix_world = Inr (at_ns scenario_T) \<and>
   readCheckTime example_env ''check.txt'' dos_world = Inl (ParseError '': extra text'')"
proof -
  have u: "nodes unix_world ''check.txt'' =
      File (''Tue Dec 10 13:07:28 2019 +0800'' @ replicate 2 newline)"
    by (simp add: unix_world_def)
  have d: "nodes dos_world ''check.txt'' =
      File (''Tue Dec 10 13:07:28 2019 +0800'' @ [CHR 0x0D] @ replicate 1 newline)"
    by (simp add: dos_world_def)
  have c: "[CHR 0x0D] \<noteq> [] \<and> last [CHR 0x0D] \<noteq> newline"
    by (simp add: newline_def)
  show ?thesis
    using trailing_newlines_only [of unix_world "''check.txt''" "''Tue Dec 10 13:07:28 2019 +0800''"
        2 unix_world example_env "at_ns scenario_T"]
      trailing_newlines_only [of dos_world "''check.txt''" "''Tue Dec 10 13:07:28 2019 +0800''"
        1 dos_world example_env "at_ns scenario_T" "[CHR 0x0D]"]
      u d c example_parse
    by simp
qed

lemma Format_no_newline: "fits_layout t \<Longrightarrow> TrimRight (Format_DateFormat t) [newline] = Format_DateFormat t"
  by (rule TrimRight_valid) (rule Parse_Format)

text \<open>
  Claim C5. For a start time the layout can hold (a year from 0 to 9999 and a zone offset
  of whole minutes, below 25 hours), a checkpoint written by \<^verbatim>\<open>writeCheckTime\<close> on a file
  that can be opened, on a device with room for the 30 bytes, is read back by
  \<^verbatim>\<open>readCheckTime\<close>, in this or a later run, as the same time cut to whole seconds, with
  the same zone offset.
\<close>

theorem checkpoint_roundtrip:
  assumes "fits_layout (start e)"
    and "fst (OpenFile filename w) = None"
    and "30 \<le> room w"
  shows "fst (writeCheckTime e filename w) = None \<and>
     nodes (snd (writeCheckTime e filename w)) filename = File (Format_DateFormat (start e)) \<and>
     readCheckTime e' filename (snd (writeCheckTime e filename w)) = Inr (whole_seconds (start e))"
proof -
  obtain w1 where o: "OpenFile filename w = (None, w1)"
    using assms(2) by (cases "OpenFile filename w") auto
  have w1: "nodes w1 filename = File []" "room w1 = room w"
    using o by (auto simp: OpenFile_def split: node.splits)
  have len: "length (Format_DateFormat (start e)) \<le> room w1"
    using Format_length [OF assms(1)] assms(3) w1 by simp
  have wr: "nodes (snd (WriteString filename (Format_DateFormat (start e)) w1)) filename =
      File (Format_DateFormat (start e))"
    using w1 len by (simp add: WriteString_def)
  have a: "writeCheckTime e filename w =
      (None, snd (WriteString filename (Format_DateFormat (start e)) w1))"
    by (simp add: writeCheckTime_def o)
  have "readCheckTime e' filename (snd (writeCheckTime e filename w)) =
      Parse_DateFormat (TrimRight (Format_DateFormat (start e)) [newline])"
    unfolding a snd_conv using wr by (rule readCheckTime_File)
  then show ?thesis
    using a wr assms(1) by (simp add: Format_no_newline Parse_Format)
qed

lemma example_start: "fits_layout (start example_env) \<and> whole_seconds (start example_env) = at_ns scenario_T"
  by code_simp

theorem checkpoint_roundtrip_witness:
  "fits_layout (start example_env) \<and> fst (OpenFile checkFileName saved_world) = None \<and>
   30 \<le> room saved_world \<and>
   readCheckTime failing_env checkFileName (snd (writeCheckTime example_env checkFileName saved_world))
     = Inr (at_ns scenario_T)"
proof -
  have o: "fst (OpenFile checkFileName saved_world) = None"
    by (simp add: OpenFile_def saved_world_def checkFileName_def)
  have r: "30 \<le> room saved_world" by (simp add: saved_world_def)
  have f: "fits_layout (start example_env)" using example_start by simp
  show ?thesis
    using checkpoint_roundtrip [OF f o r, of failing_env] example_start o r by simp
qed

text \<open>
  Claim C6. Without a checkpoint file \<^verbatim>\<open>readCheckTime\<close> returns no error and a time of
  \<^verbatim>\<open>Local\<close> six months before the reading of the clock: it has the nanoseconds of the
  reading and lies between 181 and 184 days before it, the difference between an offset of
  \<^verbatim>\<open>Local\<close> and its offset at the reading aside; when no offset of \<^verbatim>\<open>Local\<close> exceeds a
  day and \<^verbatim>\<open>Local\<close> keeps the offset of the time returned for two days around it, the time
  returned shows the clock of the reading and the date of the reading with the month six
  months earlier, a day past the end of that month being counted on into the next month.
  With a checkpoint file whose content, trailing newlines removed, does not parse, it
  returns the error of the parse; \<^verbatim>\<open>main\<close> then panics (with that error when the result
  directory could be prepared) and leaves the file as it is.
\<close>

theorem load_default_or_error:
  "(nodes w filename = Absent \<longrightarrow>
      (\<exists>v. readCheckTime e filename w = Inr v \<and>
         nsec_of v = now e mod 1000000000 \<and>
         zone v = fst (Location_lookup (Local e) (unixNano v div 1000000000)) \<and>
         (\<exists>n u. 181 \<le> n \<and> n \<le> 184 \<and>
            now e - unixNano v =
              (n * 86400 + fst (Location_lookup (Local e) u)
                 - fst (Location_lookup (Local e) (now e div 1000000000))) * 1000000000) \<and>
         ((\<forall>u. \<bar>fst (Location_lookup (Local e) u)\<bar> \<le> 86400) \<and>
          (\<forall>u. \<bar>u - unixNano v div 1000000000\<bar> \<le> 172800 \<longrightarrow>
             fst (Location_lookup (Local e) u) = zone v) \<longrightarrow>
            clock_of v = clock_of (time_Now e) \<and>
            (\<forall>y m d. date_of (time_Now e) = (y, m, d) \<longrightarrow>
               (let y' = (if m \<le> 6 then y - 1 else y); m' = (if m \<le> 6 then m + 6 else m - 6)
                in date_of v = (if d \<le> daysIn m' y' then (y', m', d)
                                else (y', m' + 1, d - daysIn m' y'))))))) \<and>
   (nodes w filename = File b \<and> Parse_DateFormat (TrimRight b [newline]) = Inl err \<longrightarrow>
      readCheckTime e filename w = Inl err) \<and>
   (nodes w checkFileName = File b \<and> Parse_DateFormat (TrimRight b [newline]) = Inl err \<longrightarrow>
      fst (main e w) \<noteq> Returned \<and>
      (fst (prepareDir resultDir w) = None \<longrightarrow> fst (main e w) = Panic err) \<and>
      nodes (snd (main e w)) checkFileName = File b)"
proof (intro conjI impI)
  let ?v = "AddDate (time_Now e) (Local e) 0 (- 6) 0"
  assume "nodes w filename = Absent"
  then have r: "readCheckTime e filename w = Inr ?v"
    by (simp add: readCheckTime_def os_Stat_def)
  have n1: "nsec_of (time_Now e) = now e mod 1000000000"
    by (simp add: nsec_of_def time_Now_def)
  have n2: "unixNano (time_Now e) = now e"
    by (simp add: time_Now_def)
  have n3: "zone (time_Now e) = fst (Location_lookup (Local e) (now e div 1000000000))"
    by (simp add: time_Now_def)
  note p = AddDate_half_year [of "time_Now e" "Local e", unfolded n1 n2 n3]
  show "\<exists>v. readCheckTime e filename w = Inr v \<and>
         nsec_of v = now e mod 1000000000 \<and>
         zone v = fst (Location_lookup (Local e) (unixNano v div 1000000000)) \<and>
         (\<exists>n u. 181 \<le> n \<and> n \<le> 184 \<and>
            now e - unixNano v =
              (n * 86400 + fst (Location_lookup (Local e) u)
                 - fst (Location_lookup (Local e) (now e div 1000000000))) * 1000000000) \<and>
         ((\<forall>u. \<bar>fst (Location_lookup (Local e) u)\<bar> \<le> 86400) \<and>
          (\<forall>u. \<bar>u - unixNano v div 1000000000\<bar> \<le> 172800 \<longrightarrow>
             fst (Location_lookup (Local e) u) = zone v) \<longrightarrow>
            clock_of v = clock_of (time_Now e) \<and>
            (\<forall>y m d. date_of (time_Now e) = (y, m, d) \<longrightarrow>
               (let y' = (if m \<le> 6 then y - 1 else y); m' = (if m \<le> 6 then m + 6 else m - 6)
                in date_of v = (if d \<le> daysIn m' y' then (y', m', d)
                                else (y', m' + 1, d - daysIn m' y')))))"
    by (rule exI [of _ ?v]) (rule conjI [OF r p])
next
  assume "nodes w filename = File b \<and> Parse_DateFormat (TrimRight b [newline]) = Inl err"
  then show "readCheckTime e filename w = Inl err"
    by (simp add: readCheckTime_def os_Stat_def ReadFile_def)
next
  assume h: "nodes w checkFileName = File b \<and> Parse_DateFormat (TrimRight b [newline]) = Inl err"
  obtain x w0 where p: "prepareDir resultDir w = (x, w0)"
    by (cases "prepareDir resultDir w")
  have "nodes w0 checkFileName = File b"
    using nodes_prepareDir [OF resultDir_neq, of w] p h by simp
  then have r: "readCheckTime e checkFileName w0 = Inl err"
    using h by (simp add: readCheckTime_def os_Stat_def ReadFile_def)
  show "fst (main e w) \<noteq> Returned"
    using p r by (cases x) (simp_all add: main_def)
  show "fst (main e w) = Panic err" if "fst (prepareDir resultDir w) = None"
    using p r that by (simp add: main_def)
  show "nodes (snd (main e w)) checkFileName = File b"
    using main_checkpoint [of e w] \<open>fst (main e w) \<noteq> Returned\<close> h by simp
qed

lemma example_loads: "Parse_DateFormat (TrimRight ''last week'' [newline]) = Inl errBad"
  by code_simp

lemma new_york_loads:
  "readCheckTime new_york_env checkFileName example_world =
     Inr \<lparr>unixNano = 1777663348901140754, zone = - 14400\<rparr>"
  by code_simp

lemma new_york_now:
  "time_Now new_york_env = \<lparr>unixNano = 1793564548901140754, zone = - 18000\<rparr>"
  "date_of (time_Now new_york_env) = (2026, 11, 1)"
  "clock_of (time_Now new_york_env) = (15, 22, 28)"
  by code_simp+

theorem load_default_or_error_witness:
  "readCheckTime new_york_env checkFileName example_world =
     Inr \<lparr>unixNano = 1777663348901140754, zone = - 14400\<rparr> \<and>
   time_Now new_york_env = \<lparr>unixNano = 1793564548901140754, zone = - 18000\<rparr> \<and>
   date_of (time_Now new_york_env) = (2026, 11, 1) \<and>
   clock_of (time_Now new_york_env) = (15, 22, 28) \<and>
   date_of \<lparr>unixNano = 1777663348901140754, zone = - 14400\<rparr> = (2026, 5, 1) \<and>
   clock_of \<lparr>unixNano = 1777663348901140754, zone = - 14400\<rparr> = (15, 22, 28) \<and>
   readCheckTime example_env checkFileName corrupt_world = Inl errBad \<and>
   fst (main example_env corrupt_world) = Panic errBad \<and>
   nodes (snd (main example_env corrupt_world)) checkFileName = File ''last week''"
proof -
  let ?v = "\<lparr>unixNano = 1777663348901140754, zone = - 14400\<rparr>"
  have a: "nodes example_world checkFileName = Absent"
    by (simp add: example_world_def checkFileName_def)
  have b: "nodes corrupt_world checkFileName = File ''last week''"
    by (simp add: corrupt_world_def checkFileName_def)
  have c: "fst (prepareDir resultDir corrupt_world) = None"
    by (simp add: prepareDir_def os_Stat_def Mkdir_def corrupt_world_def saved_world_def resultDir_def)
  have l: "Local new_york_env = new_york" by (simp add: new_york_env_def)
  have bound: "\<forall>u. \<bar>fst (Location_lookup (Local new_york_env) u)\<bar> \<le> 86400"
    unfolding l by (simp add: new_york_def)
  have steady: "\<forall>u. \<bar>u - unixNano ?v div 1000000000\<bar> \<le> 172800 \<longrightarrow>
      fst (Location_lookup (Local new_york_env) u) = zone ?v"
    unfolding l by (simp add: new_york_def)
  have d: "daysIn 5 2026 = 31" by (simp add: daysIn_def daysBefore_def)
  have p: "clock_of ?v = clock_of (time_Now new_york_env) \<and>
     (\<forall>y m d. date_of (time_Now new_york_env) = (y, m, d) \<longrightarrow>
        (let y' = (if m \<le> 6 then y - 1 else y); m' = (if m \<le> 6 then m + 6 else m - 6)
         in date_of ?v = (if d \<le> daysIn m' y' then (y', m', d)
                          else (y', m' + 1, d - daysIn m' y'))))"
    using load_default_or_error [of example_world checkFileName new_york_env]
      a new_york_loads bound steady by auto
  have ck: "clock_of ?v = (15, 22, 28)" using p new_york_now(3) by simp
  have "let y' = (if (11::int) \<le> 6 then 2026 - 1 else (2026::int)); m' = (if (11::int) \<le> 6 then 11 + 6 else 11 - 6)
         in date_of ?v = (if 1 \<le> daysIn m' y' then (y', m', 1)
                          else (y', m' + 1, 1 - daysIn m' y'))"
    using p new_york_now(2) by blast
  then have dt: "date_of ?v = (2026, 5, 1)" by (simp add: Let_def d)
  show ?thesis
    using load_default_or_error [of corrupt_world checkFileName example_env "''last week''" errBad]
      b c example_loads new_york_loads new_york_now ck dt
    by simp
qed

end
